theory Spec2Isabelle
  imports Complex_Main "HOL-Library.Multiset"
begin

section \<open>World states, conditions and values\<close>

text \<open>
  The planner of \<^verbatim>\<open>rgoap/planning.py\<close> works on the domain model of the package
  (\<^verbatim>\<open>WorldState\<close>, \<^verbatim>\<open>Condition\<close>, \<^verbatim>\<open>Action\<close>, \<^verbatim>\<open>Goal\<close>), which lives in a module that is
  not part of the sources at hand. The planner only uses the interface of these classes.

  A condition is identified by its state name. A condition value is a Python object; the
  heuristic distinguishes values that support subtraction from values that do not. Python
  integers are unbounded (\<open>IntV\<close>; a Python \<^verbatim>\<open>bool\<close> is the integer 0 or 1), strings and
  \<^verbatim>\<open>None\<close> stand for the values on which \<^verbatim>\<open>a - b\<close> raises \<^verbatim>\<open>TypeError\<close>. The quotient
  \<^verbatim>\<open>float(distance_remaining) / distance_total\<close> is taken in exact rational arithmetic.
\<close>

type_synonym condition = string

datatype val = IntV int | StrV string | NoneV

datatype error = AssertionError | KeyError | IndexError | ZeroDivisionError | TypeError

text \<open>
  Modelled from the spec: the class \<^verbatim>\<open>WorldState\<close> is missing from the sources. The spec
  describes it as a mapping from conditions to values (absent = unknown) that can be copied.
  It is an association list here; \<open>map_of\<close> reads it.
\<close>

type_synonym worldstate = "(condition \<times> val) list"

text \<open>
  Modelled from the spec: \<^verbatim>\<open>WorldState.get_condition_value\<close> is missing from the sources;
  it "fails with a lookup error if absent".
\<close>

definition get_condition_value :: "worldstate \<Rightarrow> condition \<Rightarrow> error + val" where
  "get_condition_value ws c = (case map_of ws c of None \<Rightarrow> Inl KeyError | Some v \<Rightarrow> Inr v)"

text \<open>
  Modelled from the spec: the write access to a \<^verbatim>\<open>WorldState\<close> is missing from the
  sources; actions use it to update a state ("\<open>run(next_state)\<close> performs the real side
  effect, updating \<open>next_state\<close>").
\<close>

definition set_condition_value :: "worldstate \<Rightarrow> condition \<Rightarrow> val \<Rightarrow> worldstate" where
  "set_condition_value ws c v = (c, v) # filter (\<lambda>kv. fst kv \<noteq> c) ws"

text \<open>
  Modelled from the spec: \<^verbatim>\<open>WorldState.matches\<close> is missing from the sources;
  \<open>matches self other\<close> is "true iff this state satisfies every condition \<open>other\<close> cares
  about".
\<close>

definition matches :: "worldstate \<Rightarrow> worldstate \<Rightarrow> bool" where
  "matches self other = list_all (\<lambda>c. map_of self c = map_of other c) (map fst other)"

text \<open>
  Modelled from the spec: \<^verbatim>\<open>WorldState.get_unsatisfied_conditions\<close> is missing from the
  sources; it is the "set of conditions differing from a reference state". A condition
  differs when both states record it with unequal values. The set is enumerated in the
  order of the state's own entries; Python leaves the iteration order of a set open.
\<close>

definition differs :: "worldstate \<Rightarrow> worldstate \<Rightarrow> condition \<Rightarrow> bool" where
  "differs self other c =
     (case map_of self c of None \<Rightarrow> False
      | Some v \<Rightarrow> (case map_of other c of None \<Rightarrow> False | Some u \<Rightarrow> v \<noteq> u))"

definition get_unsatisfied_conditions :: "worldstate \<Rightarrow> worldstate \<Rightarrow> condition list" where
  "get_unsatisfied_conditions self other = filter (differs self other) (remdups (map fst self))"

section \<open>Actions and goals\<close>

text \<open>
  Modelled from the spec: the classes \<^verbatim>\<open>Action\<close> and \<^verbatim>\<open>Goal\<close> are missing from the
  sources. The planner and the executor call an action only through the operations listed
  in the spec, and applications subclass \<^verbatim>\<open>Action\<close> to supply them, so an action is a
  record of these operations. The type \<open>'w\<close> is the world outside the planner: the freeform
  context of an action reads it, and running an action changes it. \<open>run\<close> receives the
  worldstate of the next node and returns it updated.
\<close>

record 'w action =
  cost :: rat
  check_freeform_context :: "'w \<Rightarrow> bool"
  is_valid :: "worldstate \<Rightarrow> bool"
  apply_preconditions :: "worldstate \<Rightarrow> worldstate \<Rightarrow> worldstate"
  has_satisfying_effects :: "worldstate \<Rightarrow> worldstate \<Rightarrow> condition list \<Rightarrow> bool"
  run :: "worldstate \<Rightarrow> 'w \<Rightarrow> worldstate \<times> 'w"

record goal =
  goal_apply_preconditions :: "worldstate \<Rightarrow> worldstate"
  usability :: rat

section \<open>Nodes\<close>

text \<open>
  \<^verbatim>\<open>class Node\<close>: the fields of \<^verbatim>\<open>__init__\<close>. \<^verbatim>\<open>action\<close> is \<^verbatim>\<open>None\<close> for the goal node,
  \<^verbatim>\<open>heuristic_distance\<close> is \<^verbatim>\<open>None\<close> until it is computed. A path list holds the parent
  nodes as they were when the child was created; the fields read through a path list
  (worldstate, action, path lists) are not written by the planner afterwards.
\<close>

datatype 'w node = Node
  (worldstate: worldstate)
  (action: "'w action option")
  (possible_prev_nodes: "'w node list")
  (parent_nodes_path_list: "'w node list")
  (parent_actions_path_list: "'w action list")
  (heuristic_distance: "rat option")

definition set_heuristic_distance :: "'w node \<Rightarrow> rat \<Rightarrow> 'w node" where
  "set_heuristic_distance n h =
     Node (worldstate n) (action n) (possible_prev_nodes n) (parent_nodes_path_list n)
       (parent_actions_path_list n) (Some h)"

definition append_prev_node :: "'w node \<Rightarrow> 'w node \<Rightarrow> 'w node" where
  "append_prev_node n c =
     Node (worldstate n) (action n) (possible_prev_nodes n @ [c]) (parent_nodes_path_list n)
       (parent_actions_path_list n) (heuristic_distance n)"

definition set_worldstate :: "'w node \<Rightarrow> worldstate \<Rightarrow> 'w node" where
  "set_worldstate n ws =
     Node ws (action n) (possible_prev_nodes n) (parent_nodes_path_list n)
       (parent_actions_path_list n) (heuristic_distance n)"

definition is_goal :: "'w node \<Rightarrow> bool" where
  "is_goal n = (action n = None)"

text \<open>\<^verbatim>\<open>parent_node\<close>: \<^verbatim>\<open>self.parent_nodes_path_list[-1]\<close> raises on an empty list.\<close>

definition parent_node :: "'w node \<Rightarrow> error + 'w node" where
  "parent_node n =
     (if parent_nodes_path_list n = [] then Inl IndexError
      else Inr (last (parent_nodes_path_list n)))"

definition node_cost :: "'w node \<Rightarrow> rat" where
  "node_cost n = (case action n of None \<Rightarrow> 0 | Some a \<Rightarrow> cost a)"

definition path_cost :: "'w node \<Rightarrow> rat" where
  "path_cost n = node_cost n + sum_list (map node_cost (parent_nodes_path_list n))"

text \<open>\<^verbatim>\<open>total_cost\<close>: adding \<^verbatim>\<open>None\<close> to a number raises \<^verbatim>\<open>TypeError\<close>.\<close>

definition total_cost :: "'w node \<Rightarrow> error + rat" where
  "total_cost n =
     (case heuristic_distance n of None \<Rightarrow> Inl TypeError | Some h \<Rightarrow> Inr (path_cost n + h))"

subsection \<open>The heuristic\<close>

fun num_of :: "val \<Rightarrow> int option" where
  "num_of (IntV i) = Some i"
| "num_of (StrV s) = None"
| "num_of NoneV = None"

text \<open>\<^verbatim>\<open>abs(a - b)\<close>: a \<^verbatim>\<open>TypeError\<close> unless both operands are numbers.\<close>

definition abs_diff :: "val \<Rightarrow> val \<Rightarrow> error + int" where
  "abs_diff a b =
     (case num_of a of None \<Rightarrow> Inl TypeError
      | Some x \<Rightarrow> (case num_of b of None \<Rightarrow> Inl TypeError | Some y \<Rightarrow> Inr \<bar>x - y\<bar>))"

text \<open>
  The body of the inner \<^verbatim>\<open>try\<close>: the two differences, the division, the assertion
  \<^verbatim>\<open>relative_distance > 0\<close>.
\<close>

definition relative_distance :: "val \<Rightarrow> val \<Rightarrow> val \<Rightarrow> error + rat" where
  "relative_distance goal_value node_value start_value =
     (case abs_diff goal_value start_value of Inl e \<Rightarrow> Inl e
      | Inr distance_total \<Rightarrow>
          (case abs_diff node_value start_value of Inl e \<Rightarrow> Inl e
           | Inr distance_remaining \<Rightarrow>
               if distance_total = 0 then Inl ZeroDivisionError
               else if 0 < (of_int distance_remaining / of_int distance_total :: rat)
               then Inr (of_int distance_remaining / of_int distance_total)
               else Inl AssertionError))"

text \<open>
  One pass of the loop over the unsatisfied conditions: \<^verbatim>\<open>KeyError\<close> of the goal lookup
  and \<^verbatim>\<open>TypeError\<close> of the arithmetic give the default distance 1, every other exception
  leaves the loop.
\<close>

definition condition_distance ::
  "worldstate \<Rightarrow> worldstate \<Rightarrow> worldstate \<Rightarrow> condition \<Rightarrow> error + rat" where
  "condition_distance goal_worldstate node_worldstate start_worldstate c =
     (case get_condition_value goal_worldstate c of
        Inl e \<Rightarrow> (if e = KeyError then Inr 1 else Inl e)
      | Inr goal_value \<Rightarrow>
          (case get_condition_value node_worldstate c of Inl e \<Rightarrow> Inl e
           | Inr node_value \<Rightarrow>
               (case get_condition_value start_worldstate c of Inl e \<Rightarrow> Inl e
                | Inr start_value \<Rightarrow>
                    (case relative_distance goal_value node_value start_value of
                       Inl e \<Rightarrow> (if e = TypeError then Inr 1 else Inl e)
                     | Inr r \<Rightarrow> Inr r))))"

text \<open>
  The loop adds to \<^verbatim>\<open>self.heuristic_distance\<close>; when an exception leaves it, the field
  keeps the sum so far.
\<close>

fun sum_distances ::
  "worldstate \<Rightarrow> worldstate \<Rightarrow> worldstate \<Rightarrow> condition list \<Rightarrow> rat \<Rightarrow> rat \<times> error option" where
  "sum_distances gw nw sw [] h = (h, None)"
| "sum_distances gw nw sw (c # cs) h =
     (case condition_distance gw nw sw c of
        Inl e \<Rightarrow> (h, Some e)
      | Inr d \<Rightarrow> sum_distances gw nw sw cs (h + d))"

text \<open>
  \<^verbatim>\<open>_calc_heuristic_distance_for_node\<close>. The result is the node after the call and the
  exception that left the call, if any.
\<close>

definition calc_heuristic_distance_for_node ::
  "worldstate \<Rightarrow> 'w node \<Rightarrow> 'w node \<times> error option" where
  "calc_heuristic_distance_for_node start_worldstate self =
     (if heuristic_distance self \<noteq> None then (self, Some AssertionError)
      else
        let unsatisfied_conditions_set =
              get_unsatisfied_conditions (worldstate self) start_worldstate
        in if is_goal self
           then (set_heuristic_distance self (of_nat (length unsatisfied_conditions_set)), None)
           else (case parent_nodes_path_list self of
                   [] \<Rightarrow> (self, Some IndexError)
                 | goal_node # _ \<Rightarrow>
                     (case sum_distances (worldstate goal_node) (worldstate self)
                             start_worldstate unsatisfied_conditions_set 0 of
                        (h, Some e) \<Rightarrow> (set_heuristic_distance self h, Some e)
                      | (h, None) \<Rightarrow>
                          (set_heuristic_distance self
                             (min (of_nat (length unsatisfied_conditions_set)) h), None))))"

subsection \<open>Expansion\<close>

text \<open>
  The loop of \<^verbatim>\<open>get_child_nodes\<close>: each child gets the path lists of this node extended
  by this node and by the child's action, a copy of the worldstate with the action's
  preconditions applied, and its heuristic; it is then appended to
  \<^verbatim>\<open>self.possible_prev_nodes\<close>.
\<close>

definition make_child :: "worldstate \<Rightarrow> 'w node \<Rightarrow> 'w action \<Rightarrow> 'w node" where
  "make_child start_worldstate self a =
     Node (apply_preconditions a (worldstate self) start_worldstate) (Some a) []
       (parent_nodes_path_list self @ [self]) (parent_actions_path_list self @ [a]) None"

fun get_child_nodes_loop ::
  "worldstate \<Rightarrow> 'w node \<Rightarrow> 'w action list \<Rightarrow> 'w node \<times> error option" where
  "get_child_nodes_loop start_worldstate self [] = (self, None)"
| "get_child_nodes_loop start_worldstate self (a # actions) =
     (case calc_heuristic_distance_for_node start_worldstate
             (make_child start_worldstate self a) of
        (child, Some e) \<Rightarrow> (self, Some e)
      | (child, None) \<Rightarrow>
          get_child_nodes_loop start_worldstate (append_prev_node self child) actions)"

definition get_child_nodes ::
  "'w action list \<Rightarrow> worldstate \<Rightarrow> 'w node \<Rightarrow> 'w node \<times> (error + 'w node list)" where
  "get_child_nodes actions start_worldstate self =
     (if possible_prev_nodes self \<noteq> [] then (self, Inl AssertionError)
      else (case get_child_nodes_loop start_worldstate self actions of
              (self', Some e) \<Rightarrow> (self', Inl e)
            | (self', None) \<Rightarrow> (self', Inr (possible_prev_nodes self'))))"

section \<open>The planner\<close>

text \<open>
  \<^verbatim>\<open>Planner._filter_matching_actions\<close>: the actions whose effects may help with a
  condition that differs between the node and the start worldstate.
\<close>

definition filter_matching_actions ::
  "worldstate \<Rightarrow> worldstate \<Rightarrow> 'w action list \<Rightarrow> 'w action list" where
  "filter_matching_actions start_worldstate node_worldstate actions =
     filter (\<lambda>a. has_satisfying_effects a node_worldstate start_worldstate
                   (get_unsatisfied_conditions node_worldstate start_worldstate)) actions"

text \<open>
  \<^verbatim>\<open>sorted(child_nodes, key=lambda node: node.total_cost())\<close>: Python computes the key of
  every node first (an exception of a key leaves the call) and then sorts by the keys
  alone, keeping the order of nodes with equal keys. \<open>sort_key\<close> is this stable sort.
\<close>

definition cost_key :: "'w node \<Rightarrow> rat" where
  "cost_key n = (case total_cost n of Inl e \<Rightarrow> 0 | Inr c \<Rightarrow> c)"

definition sorted_by_total_cost :: "'w node list \<Rightarrow> error + 'w node list" where
  "sorted_by_total_cost nodes =
     (if list_all (\<lambda>n. heuristic_distance n \<noteq> None) nodes
      then Inr (sort_key cost_key nodes) else Inl TypeError)"

text \<open>
  One pass of the body of the \<^verbatim>\<open>while\<close> loop of \<^verbatim>\<open>Planner.plan\<close> after the loop limit
  has been checked: the first node is taken from the open collection; either the start
  worldstate matches it (\<open>Found\<close>), or it is expanded over the helpful actions and the
  collection, extended by the new nodes, is sorted again (\<open>Continue\<close>), or an exception
  leaves the loop (\<open>Raised\<close>).
\<close>

definition expand ::
  "worldstate \<Rightarrow> 'w action list \<Rightarrow> 'w node \<Rightarrow> 'w node \<times> (error + 'w node list)" where
  "expand start_worldstate checked_actions current_node =
     get_child_nodes
       (filter_matching_actions start_worldstate (worldstate current_node) checked_actions)
       start_worldstate current_node"

datatype 'w iteration = Found "'w node" | Continue "'w node list" | Raised error

definition plan_iteration ::
  "worldstate \<Rightarrow> 'w action list \<Rightarrow> 'w node \<Rightarrow> 'w node list \<Rightarrow> 'w iteration" where
  "plan_iteration start_worldstate checked_actions current_node child_nodes =
     (if matches start_worldstate (worldstate current_node) then Found current_node
      else
        (case expand start_worldstate checked_actions current_node of
           (expanded, Inl e) \<Rightarrow> Raised e
         | (expanded, Inr new_child_nodes) \<Rightarrow>
             (case sorted_by_total_cost (child_nodes @ new_child_nodes) of
                Inl e \<Rightarrow> Raised e
              | Inr sorted_nodes \<Rightarrow> Continue sorted_nodes)))"

text \<open>
  The \<^verbatim>\<open>while\<close> loop: it ends with \<^verbatim>\<open>None\<close> when the open collection is empty or when
  \<^verbatim>\<open>loopcount\<close>, increased first, is greater than 500.
\<close>

function plan_loop ::
  "worldstate \<Rightarrow> 'w action list \<Rightarrow> nat \<Rightarrow> 'w node list \<Rightarrow> error + 'w node option" where
  "plan_loop start_worldstate checked_actions loopcount child_nodes =
     (case child_nodes of
        [] \<Rightarrow> Inr None
      | current_node # rest \<Rightarrow>
          if loopcount + 1 > 500 then Inr None
          else (case plan_iteration start_worldstate checked_actions current_node rest of
                  Found n \<Rightarrow> Inr (Some n)
                | Raised e \<Rightarrow> Inl e
                | Continue sorted_nodes \<Rightarrow>
                    plan_loop start_worldstate checked_actions (loopcount + 1) sorted_nodes))"
  by pat_completeness auto
termination
  by (relation "measure (\<lambda>(s, a, loopcount, q). 501 - loopcount)") auto

declare plan_loop.simps [simp del]

text \<open>
  The goal node of \<^verbatim>\<open>Planner.plan\<close>: the goal's preconditions applied to an empty
  worldstate, no action, empty path lists.
\<close>

definition goal_node :: "goal \<Rightarrow> 'w node" where
  "goal_node g = Node (goal_apply_preconditions g []) None [] [] [] None"

text \<open>
  \<^verbatim>\<open>Planner.plan\<close>. The catalog is a list in the order in which Python iterates over
  the set \<^verbatim>\<open>checked_actions\<close>; \<open>w\<close> is the world at the time of the call, in which the
  freeform context of every action is checked once.
\<close>

definition checked_actions_of :: "'w \<Rightarrow> 'w action list \<Rightarrow> 'w action list" where
  "checked_actions_of w actions = filter (\<lambda>a. check_freeform_context a w) actions"

definition plan ::
  "'w \<Rightarrow> 'w action list \<Rightarrow> worldstate \<Rightarrow> goal \<Rightarrow> error + 'w node option" where
  "plan w actions start_worldstate g =
     (case calc_heuristic_distance_for_node start_worldstate (goal_node g) of
        (n, Some e) \<Rightarrow> Inl e
      | (n, None) \<Rightarrow> plan_loop start_worldstate (checked_actions_of w actions) 0 [n])"

section \<open>The executor\<close>

text \<open>
  \<^verbatim>\<open>PlanExecutor.execute\<close> (without introspector, as \<^verbatim>\<open>Runner.execute\<close> calls it). The
  calls made on the actions are recorded as events: \<open>Validated a ws b\<close> is the call
  \<^verbatim>\<open>a.is_valid(ws)\<close> with result \<open>b\<close>, \<open>Checked a w b\<close> the call
  \<^verbatim>\<open>a.check_freeform_context()\<close> in the world \<open>w\<close> with result \<open>b\<close>, \<open>Ran a ws w\<close> the
  call \<^verbatim>\<open>a.run(ws)\<close> in the world \<open>w\<close>.
  \<^verbatim>\<open>run\<close> writes into the worldstate object of the next node, which the recursive call
  then reads. The result is the returned value or the exception, the events, and the
  world after the call.
\<close>

datatype 'w event =
  Validated "'w action" worldstate bool
| Checked "'w action" 'w bool
| Ran "'w action" worldstate 'w

function execute :: "'w \<Rightarrow> 'w node \<Rightarrow> (error + bool) \<times> 'w event list \<times> 'w" where
  "execute w start_node =
     (if length (parent_nodes_path_list start_node) \<noteq> length (parent_actions_path_list start_node)
      then (Inl AssertionError, [], w)
      else
        (case action start_node of
           None \<Rightarrow> (Inr True, [], w)
         | Some a \<Rightarrow>
             (case parent_node start_node of
                Inl e \<Rightarrow> (Inl e, [], w)
              | Inr next_node \<Rightarrow>
                  if is_valid a (worldstate start_node) then
                    if check_freeform_context a w then
                      (case run a (worldstate next_node) w of
                         (next_worldstate, w') \<Rightarrow>
                           (case execute w' (set_worldstate next_node next_worldstate) of
                              (r, events, w'') \<Rightarrow>
                                (r, Validated a (worldstate start_node) True # Checked a w True
                                      # Ran a (worldstate next_node) w # events, w'')))
                    else (Inr False,
                          [Validated a (worldstate start_node) True, Checked a w False], w)
                  else (Inr False, [Validated a (worldstate start_node) False], w))))"
  by pat_completeness auto
termination
proof (relation "measure (\<lambda>(w, n). size n)", goal_cases)
  case 1
  show ?case by simp
next
  case (2 w start_node a next_node x y)
  have same: "size (set_worldstate next_node x) = size next_node"
    by (cases next_node) (simp add: set_worldstate_def)
  from 2 have mem: "next_node \<in> set (parent_nodes_path_list start_node)"
    by (auto simp: parent_node_def split: if_splits)
  have "size next_node \<le> size_list size (parent_nodes_path_list start_node)"
    using mem by (simp add: size_list_estimation')
  also have "\<dots> < size start_node"
    by (cases start_node) simp
  finally show ?case
    using same by simp
qed

declare execute.simps [simp del]

text \<open>The events that record a check with a negative result.\<close>

definition failed_check :: "'w event \<Rightarrow> bool" where
  "failed_check e =
     (case e of Validated a ws b \<Rightarrow> \<not> b | Checked a w b \<Rightarrow> \<not> b | Ran a ws w \<Rightarrow> False)"

section \<open>Runs of the planner\<close>

text \<open>
  The node with which the search starts: the goal node with its heuristic computed.
\<close>

definition prepared_goal_node :: "worldstate \<Rightarrow> goal \<Rightarrow> 'w node" where
  "prepared_goal_node start_worldstate g =
     fst (calc_heuristic_distance_for_node start_worldstate (goal_node g))"

text \<open>
  The walk along the parent links that the executor and the state machine bridge make
  (\<^verbatim>\<open>while not node.is_goal(): node = node.parent_node()\<close>): the nodes visited, the last of
  them the goal node.
\<close>

function forward_walk :: "'w node \<Rightarrow> error + 'w node list" where
  "forward_walk n =
     (if is_goal n then Inr [n]
      else (case parent_node n of
              Inl e \<Rightarrow> Inl e
            | Inr next_node \<Rightarrow>
                (case forward_walk next_node of
                   Inl e \<Rightarrow> Inl e
                 | Inr nodes \<Rightarrow> Inr (n # nodes))))"
  by pat_completeness auto

termination
proof (relation "measure size", goal_cases)
  case 1
  show ?case by simp
next
  case (2 n next_node)
  then have "next_node \<in> set (parent_nodes_path_list n)"
    by (auto simp: parent_node_def split: if_splits)
  then have "size next_node \<le> size_list size (parent_nodes_path_list n)"
    by (simp add: size_list_estimation')
  also have "\<dots> < size n"
    by (cases n) simp
  finally show ?case by simp
qed

declare forward_walk.simps [simp del]

text \<open>
  The shape of the nodes the planner builds from the actions in \<open>A\<close>: the goal node has
  no action and empty path lists; any other node has an action of \<open>A\<close> and the path lists
  of its parent extended by the parent and by its own action.
\<close>

inductive chain :: "'w action set \<Rightarrow> 'w node \<Rightarrow> bool" for A :: "'w action set" where
  chain_goal:
    "action n = None \<Longrightarrow> parent_nodes_path_list n = [] \<Longrightarrow> parent_actions_path_list n = [] \<Longrightarrow>
     chain A n"
| chain_child:
    "chain A p \<Longrightarrow> action n = Some a \<Longrightarrow> a \<in> A \<Longrightarrow>
     parent_nodes_path_list n = parent_nodes_path_list p @ [p] \<Longrightarrow>
     parent_actions_path_list n = parent_actions_path_list p @ [a] \<Longrightarrow>
     chain A n"

text \<open>
  The states of the \<^verbatim>\<open>while\<close> loop of \<^verbatim>\<open>Planner.plan\<close> at the loop head:
  \<open>search_state start checked g0 loopcount child_nodes arrival popped\<close> holds when the
  loop, started with the node \<open>g0\<close>, reaches the loop head with this \<open>loopcount\<close> and this
  open collection \<open>child_nodes\<close>. Two lists are kept for the statements only: \<open>arrival\<close>
  holds the open nodes in the order in which they were added to the collection, \<open>popped\<close>
  the nodes removed so far.
\<close>

inductive search_state ::
  "worldstate \<Rightarrow> 'w action list \<Rightarrow> 'w node \<Rightarrow> nat \<Rightarrow> 'w node list \<Rightarrow> 'w node list \<Rightarrow>
   'w node list \<Rightarrow> bool"
  for start_worldstate :: worldstate and checked_actions :: "'w action list" and g0 :: "'w node"
  where
  search_init: "search_state start_worldstate checked_actions g0 0 [g0] [g0] []"
| search_step:
    "search_state start_worldstate checked_actions g0 loopcount (current_node # rest) arrival popped \<Longrightarrow>
     loopcount < 500 \<Longrightarrow>
     \<not> matches start_worldstate (worldstate current_node) \<Longrightarrow>
     expand start_worldstate checked_actions current_node = (expanded, Inr new_child_nodes) \<Longrightarrow>
     sorted_by_total_cost (rest @ new_child_nodes) = Inr sorted_nodes \<Longrightarrow>
     search_state start_worldstate checked_actions g0 (Suc loopcount) sorted_nodes
       (remove1 current_node arrival @ new_child_nodes) (popped @ [current_node])"

text \<open>
  The tree that the regressive search spans below a node: a node that the start worldstate
  matches is a leaf; any other node is expanded over its helpful actions, and its
  children span trees of their own. \<open>search_tree start checked n k\<close> holds when the tree
  below \<open>n\<close> is built without an exception and has \<open>k\<close> nodes; \<open>search_forest\<close> counts the
  nodes of the trees below a list of nodes.
\<close>

inductive search_tree :: "worldstate \<Rightarrow> 'w action list \<Rightarrow> 'w node \<Rightarrow> nat \<Rightarrow> bool"
  and search_forest :: "worldstate \<Rightarrow> 'w action list \<Rightarrow> 'w node list \<Rightarrow> nat \<Rightarrow> bool"
  for start_worldstate :: worldstate and checked_actions :: "'w action list"
  where
  tree_match:
    "matches start_worldstate (worldstate n) \<Longrightarrow> search_tree start_worldstate checked_actions n 1"
| tree_expand:
    "\<not> matches start_worldstate (worldstate n) \<Longrightarrow>
     expand start_worldstate checked_actions n = (expanded, Inr new_child_nodes) \<Longrightarrow>
     search_forest start_worldstate checked_actions new_child_nodes k \<Longrightarrow>
     search_tree start_worldstate checked_actions n (Suc k)"
| forest_empty: "search_forest start_worldstate checked_actions [] 0"
| forest_node:
    "search_tree start_worldstate checked_actions n k \<Longrightarrow>
     search_forest start_worldstate checked_actions nodes m \<Longrightarrow>
     search_forest start_worldstate checked_actions (n # nodes) (k + m)"

text \<open>
  A plan exists below a node: the start worldstate matches the node or, regressing over
  helpful actions, a node below it.
\<close>

inductive plan_exists :: "worldstate \<Rightarrow> 'w action list \<Rightarrow> 'w node \<Rightarrow> bool"
  for start_worldstate :: worldstate and checked_actions :: "'w action list"
  where
  plan_here:
    "matches start_worldstate (worldstate n) \<Longrightarrow> plan_exists start_worldstate checked_actions n"
| plan_below:
    "\<not> matches start_worldstate (worldstate n) \<Longrightarrow>
     expand start_worldstate checked_actions n = (expanded, Inr new_child_nodes) \<Longrightarrow>
     c \<in> set new_child_nodes \<Longrightarrow>
     plan_exists start_worldstate checked_actions c \<Longrightarrow>
     plan_exists start_worldstate checked_actions n"

section \<open>Example inputs\<close>

text \<open>Nodes, actions and worldstates at which the theorems below are evaluated.\<close>

text \<open>
  Modelled from the spec: the way in which \<^verbatim>\<open>Action\<close> derives its operations from its
  preconditions and effects is missing from the sources. An action as the scenarios of
  the spec write it ("WalkToDoor(cost1, pre:{}, eff:{at_door:true})"), with a freeform
  context: it is valid in a state that holds its preconditions; applying its
  preconditions to a state drops the conditions that its effects establish and records
  the preconditions; its effects are helpful when one of them gives an unsatisfied
  condition the value that the node holds for it; running it leaves the next worldstate
  and the world as they are. The other example actions are records written out in full.
\<close>

definition simple_action ::
  "('w \<Rightarrow> bool) \<Rightarrow> rat \<Rightarrow> worldstate \<Rightarrow> worldstate \<Rightarrow> 'w action" where
  "simple_action context c preconditions effects =
     \<lparr>cost = c,
      check_freeform_context = context,
      is_valid = (\<lambda>ws. matches ws preconditions),
      apply_preconditions = (\<lambda>ws start_worldstate.
         preconditions @
         filter (\<lambda>kv. fst kv \<notin> set (map fst effects) \<and> fst kv \<notin> set (map fst preconditions)) ws),
      has_satisfying_effects = (\<lambda>node_worldstate start_worldstate unsatisfied.
         list_ex (\<lambda>kv. fst kv \<in> set unsatisfied \<and> map_of node_worldstate (fst kv) = Some (snd kv))
           effects),
      run = (\<lambda>next_worldstate w. (next_worldstate, w))\<rparr>"

definition ex_clamp_goal :: "unit node" where
  "ex_clamp_goal = Node [(''x'', IntV 1)] None [] [] [] (Some 1)"

definition ex_clamp_action :: "unit action" where
  "ex_clamp_action = \<lparr>cost = 1, check_freeform_context = (\<lambda>w. True), is_valid = (\<lambda>ws. True),
     apply_preconditions = (\<lambda>ws st. ws), has_satisfying_effects = (\<lambda>ws st cs. True),
     run = (\<lambda>ws w. (ws, w))\<rparr>"

definition ex_clamp_node :: "unit node" where
  "ex_clamp_node = Node [(''x'', IntV 5)] (Some ex_clamp_action) [] [ex_clamp_goal]
     [ex_clamp_action] None"

definition ex_zero_goal :: "unit node" where
  "ex_zero_goal = Node [(''x'', IntV 0)] None [] [] [] (Some 0)"

definition ex_zero_node :: "unit node" where
  "ex_zero_node = Node [(''x'', IntV 5)] (Some ex_clamp_action) [] [ex_zero_goal]
     [ex_clamp_action] None"

definition ex_fresh_node :: "unit node" where
  "ex_fresh_node = Node [(''x'', IntV 1)] None [] [] [] None"


definition ex_walk :: "worldstate action" where
  "ex_walk = \<lparr>cost = 1, check_freeform_context = (\<lambda>live. True), is_valid = (\<lambda>ws. True),
     apply_preconditions = (\<lambda>ws st. ws), has_satisfying_effects = (\<lambda>ws st cs. True),
     run = (\<lambda>next_ws live.
        (set_condition_value next_ws ''at_door''
           (case map_of live ''at_door'' of None \<Rightarrow> NoneV | Some v \<Rightarrow> v), live))\<rparr>"

definition ex_open :: "worldstate action" where
  "ex_open = \<lparr>cost = 1, check_freeform_context = (\<lambda>live. True),
     is_valid = (\<lambda>ws. map_of ws ''at_door'' = Some (IntV 1)),
     apply_preconditions = (\<lambda>ws st. ws), has_satisfying_effects = (\<lambda>ws st cs. True),
     run = (\<lambda>next_ws live. (next_ws, set_condition_value live ''door'' (IntV 1)))\<rparr>"

definition ex_live :: worldstate where
  "ex_live = [(''door'', IntV 0), (''at_door'', IntV 0)]"

definition ex_door_goal :: "worldstate node" where
  "ex_door_goal = Node [(''door'', IntV 1)] None [] [] [] (Some 1)"

definition ex_open_node :: "worldstate node" where
  "ex_open_node = Node [(''at_door'', IntV 1)] (Some ex_open) [] [ex_door_goal] [ex_open] (Some 1)"

definition ex_walk_node :: "worldstate node" where
  "ex_walk_node = Node [] (Some ex_walk) [] [ex_door_goal, ex_open_node] [ex_open, ex_walk]
     (Some 0)"

definition ex_live_at_door :: worldstate where
  "ex_live_at_door = [(''door'', IntV 0), (''at_door'', IntV 1)]"

definition ex_door_start :: worldstate where
  "ex_door_start = [(''door'', IntV 0), (''at_door'', IntV 0)]"

definition ex_door_open_goal :: goal where
  "ex_door_open_goal = \<lparr>goal_apply_preconditions = (\<lambda>ws. (''door'', IntV 1) # ws), usability = 1\<rparr>"

definition ex_WalkToDoor :: "unit action" where
  "ex_WalkToDoor = simple_action (\<lambda>w. True) 1 [] [(''at_door'', IntV 1)]"

definition ex_OpenDoor :: "unit action" where
  "ex_OpenDoor = simple_action (\<lambda>w. True) 1 [(''at_door'', IntV 1)] [(''door'', IntV 1)]"

definition ex_Teleport :: "unit action" where
  "ex_Teleport = simple_action (\<lambda>w. False) 0 [] [(''door'', IntV 1)]"

definition ex_plan_goal_node :: "unit node" where
  "ex_plan_goal_node = Node [(''door'', IntV 1)] None [] [] [] (Some 1)"

definition ex_plan_open_node :: "unit node" where
  "ex_plan_open_node =
     Node [(''at_door'', IntV 1)] (Some ex_OpenDoor) [] [ex_plan_goal_node] [ex_OpenDoor] (Some 1)"

definition ex_plan_walk_node :: "unit node" where
  "ex_plan_walk_node =
     Node [] (Some ex_WalkToDoor) [] [ex_plan_goal_node, ex_plan_open_node]
       [ex_OpenDoor, ex_WalkToDoor] (Some 0)"

definition ex_KickDoor :: "unit action" where
  "ex_KickDoor = simple_action (\<lambda>w. True) 1 [(''near_door'', IntV 1)] [(''door'', IntV 1)]"

definition ex_tie_start :: worldstate where
  "ex_tie_start = [(''door'', IntV 0), (''at_door'', IntV 0), (''near_door'', IntV 0)]"

definition ex_tie_open_node :: "unit node" where
  "ex_tie_open_node =
     Node [(''at_door'', IntV 1)] (Some ex_OpenDoor) [] [ex_plan_goal_node] [ex_OpenDoor] (Some 1)"

definition ex_tie_kick_node :: "unit node" where
  "ex_tie_kick_node =
     Node [(''near_door'', IntV 1)] (Some ex_KickDoor) []
       [append_prev_node ex_plan_goal_node ex_tie_open_node] [ex_KickDoor] (Some 1)"

definition ex_Detour :: "nat \<Rightarrow> unit action" where
  "ex_Detour i = simple_action (\<lambda>w. True) 1 [(''key'', IntV (int i))] [(''door'', IntV 1)]"

definition ex_Breach :: "unit action" where
  "ex_Breach = simple_action (\<lambda>w. True) 1000 [] [(''door'', IntV 1)]"

definition ex_blocked_start :: worldstate where
  "ex_blocked_start = [(''door'', IntV 0), (''key'', IntV 0)]"

definition ex_detours :: "unit action list" where
  "ex_detours = map ex_Detour [1..<601] @ [ex_Breach]"

definition ex_breach_node :: "unit node" where
  "ex_breach_node = Node [] (Some ex_Breach) [] [ex_plan_goal_node] [ex_Breach] (Some 0)"

section \<open>Properties\<close>

subsection \<open>Field access\<close>


lemma set_heuristic_distance_sel [simp]:
  "worldstate (set_heuristic_distance n h) = worldstate n"
  "action (set_heuristic_distance n h) = action n"
  "possible_prev_nodes (set_heuristic_distance n h) = possible_prev_nodes n"
  "parent_nodes_path_list (set_heuristic_distance n h) = parent_nodes_path_list n"
  "parent_actions_path_list (set_heuristic_distance n h) = parent_actions_path_list n"
  "heuristic_distance (set_heuristic_distance n h) = Some h"
  by (simp_all add: set_heuristic_distance_def)

lemma append_prev_node_sel [simp]:
  "worldstate (append_prev_node n c) = worldstate n"
  "action (append_prev_node n c) = action n"
  "possible_prev_nodes (append_prev_node n c) = possible_prev_nodes n @ [c]"
  "parent_nodes_path_list (append_prev_node n c) = parent_nodes_path_list n"
  "parent_actions_path_list (append_prev_node n c) = parent_actions_path_list n"
  "heuristic_distance (append_prev_node n c) = heuristic_distance n"
  by (simp_all add: append_prev_node_def)

lemma set_worldstate_sel [simp]:
  "worldstate (set_worldstate n ws) = ws"
  "action (set_worldstate n ws) = action n"
  "possible_prev_nodes (set_worldstate n ws) = possible_prev_nodes n"
  "parent_nodes_path_list (set_worldstate n ws) = parent_nodes_path_list n"
  "parent_actions_path_list (set_worldstate n ws) = parent_actions_path_list n"
  "heuristic_distance (set_worldstate n ws) = heuristic_distance n"
  by (simp_all add: set_worldstate_def)

lemma make_child_sel [simp]:
  "worldstate (make_child st n a) = apply_preconditions a (worldstate n) st"
  "action (make_child st n a) = Some a"
  "possible_prev_nodes (make_child st n a) = []"
  "parent_nodes_path_list (make_child st n a) = parent_nodes_path_list n @ [n]"
  "parent_actions_path_list (make_child st n a) = parent_actions_path_list n @ [a]"
  "heuristic_distance (make_child st n a) = None"
  by (simp_all add: make_child_def)

subsection \<open>The heuristic is clamped\<close>

lemma calc_heuristic_ok_cases:
  assumes "calc_heuristic_distance_for_node start n = (n', None)"
  shows "heuristic_distance n = None"
    and "worldstate n' = worldstate n"
    and "action n' = action n"
    and "possible_prev_nodes n' = possible_prev_nodes n"
    and "parent_nodes_path_list n' = parent_nodes_path_list n"
    and "parent_actions_path_list n' = parent_actions_path_list n"
    and "heuristic_distance n' \<noteq> None"
  using assms
  by (auto simp: calc_heuristic_distance_for_node_def Let_def
      split: if_splits list.splits prod.splits option.splits)

text \<open>
  Claim C6. When the heuristic of a node that is not the goal node has been computed, the
  stored \<open>heuristic_distance\<close> is at most the number of conditions on which the node's
  worldstate and the start worldstate disagree: the sum of the distances is clamped by
  \<^verbatim>\<open>min\<close>.
\<close>

theorem heuristic_clamped:
  assumes "calc_heuristic_distance_for_node start n = (n', None)" and "\<not> is_goal n"
  shows "\<exists>h. heuristic_distance n' = Some h \<and>
    h \<le> of_nat (length (get_unsatisfied_conditions (worldstate n) start))"
  using assms
  by (auto simp: calc_heuristic_distance_for_node_def Let_def
      split: if_splits list.splits prod.splits option.splits)

lemma ex_clamp_calc:
  "calc_heuristic_distance_for_node [(''x'', IntV 0)] ex_clamp_node =
     (set_heuristic_distance ex_clamp_node 1, None)"
  by (simp add: calc_heuristic_distance_for_node_def ex_clamp_node_def ex_clamp_goal_def
      is_goal_def get_unsatisfied_conditions_def differs_def condition_distance_def
      get_condition_value_def relative_distance_def abs_diff_def)

text \<open>
  At the example the sum of the distances is 5 and one condition disagrees, so the clamp
  is what makes the bound hold.
\<close>

theorem heuristic_clamped_witness:
  "calc_heuristic_distance_for_node [(''x'', IntV 0)] ex_clamp_node =
     (set_heuristic_distance ex_clamp_node 1, None) \<and>
   \<not> is_goal ex_clamp_node \<and>
   fst (sum_distances (worldstate ex_clamp_goal) (worldstate ex_clamp_node) [(''x'', IntV 0)]
          (get_unsatisfied_conditions (worldstate ex_clamp_node) [(''x'', IntV 0)]) 0) = 5 \<and>
   (\<exists>h. heuristic_distance (set_heuristic_distance ex_clamp_node 1) = Some h \<and>
     h \<le> of_nat (length (get_unsatisfied_conditions (worldstate ex_clamp_node)
                            [(''x'', IntV 0)])))"
proof -
  have ng: "\<not> is_goal ex_clamp_node"
    by (simp add: is_goal_def ex_clamp_node_def)
  have s: "fst (sum_distances (worldstate ex_clamp_goal) (worldstate ex_clamp_node)
          [(''x'', IntV 0)]
          (get_unsatisfied_conditions (worldstate ex_clamp_node) [(''x'', IntV 0)]) 0) = 5"
    by (simp add: ex_clamp_node_def ex_clamp_goal_def
      get_unsatisfied_conditions_def differs_def condition_distance_def
      get_condition_value_def relative_distance_def abs_diff_def)
  show ?thesis
    using heuristic_clamped [OF ex_clamp_calc ng] ex_clamp_calc ng s by simp
qed

subsection \<open>Division by zero in the heuristic\<close>

lemma relative_distance_type_error:
  "relative_distance gv nv sv = Inl TypeError \<longleftrightarrow>
     num_of gv = None \<or> num_of nv = None \<or> num_of sv = None"
  by (auto simp: relative_distance_def abs_diff_def split: option.splits)

lemma condition_distance_unsatisfied:
  assumes "differs nw sw c"
  shows "(\<exists>d. condition_distance gw nw sw c = Inr d) \<or>
         condition_distance gw nw sw c = Inl ZeroDivisionError"
proof -
  from assms obtain v u where vu: "map_of nw c = Some v" "map_of sw c = Some u" "v \<noteq> u"
    by (auto simp: differs_def split: option.splits)
  show ?thesis
  proof (cases "map_of gw c")
    case None
    then show ?thesis by (simp add: condition_distance_def get_condition_value_def)
  next
    case (Some g)
    show ?thesis
    proof (cases "num_of g = None \<or> num_of v = None \<or> num_of u = None")
      case True
      then have "relative_distance g v u = Inl TypeError"
        by (simp add: relative_distance_type_error)
      with Some vu show ?thesis
        by (simp add: condition_distance_def get_condition_value_def)
    next
      case False
      then obtain gi vi ui where n: "g = IntV gi" "v = IntV vi" "u = IntV ui"
        by (cases g; cases v; cases u) auto
      with vu have "vi \<noteq> ui" by simp
      then have pos: "0 < \<bar>vi - ui\<bar>" by simp
      show ?thesis
      proof (cases "gi = ui")
        case True
        with Some vu n show ?thesis
          by (simp add: condition_distance_def get_condition_value_def relative_distance_def
              abs_diff_def)
      next
        case False
        then have "0 < \<bar>gi - ui\<bar>" by simp
        with pos have "0 < (of_int \<bar>vi - ui\<bar> / of_int \<bar>gi - ui\<bar> :: rat)"
          by simp
        with Some vu n False show ?thesis
          by (simp add: condition_distance_def get_condition_value_def relative_distance_def
              abs_diff_def)
      qed
    qed
  qed
qed

lemma sum_distances_zero_division:
  assumes "c \<in> set cs" and "condition_distance gw nw sw c = Inl ZeroDivisionError"
    and "\<forall>x\<in>set cs. differs nw sw x"
  shows "snd (sum_distances gw nw sw cs h) = Some ZeroDivisionError"
  using assms
proof (induction cs arbitrary: h)
  case Nil
  then show ?case by simp
next
  case (Cons x cs)
  from Cons.prems(3) have "differs nw sw x" by simp
  from condition_distance_unsatisfied [OF this, of gw]
  show ?case
  proof
    assume "\<exists>d. condition_distance gw nw sw x = Inr d"
    then obtain d where d: "condition_distance gw nw sw x = Inr d" ..
    with Cons.prems have "c \<in> set cs" by auto
    with Cons.IH Cons.prems d show ?thesis by simp
  next
    assume "condition_distance gw nw sw x = Inl ZeroDivisionError"
    then show ?thesis by simp
  qed
qed

lemma unsatisfied_differs:
  "c \<in> set (get_unsatisfied_conditions nw sw) \<Longrightarrow> differs nw sw c"
  by (simp add: get_unsatisfied_conditions_def)

text \<open>
  Claim C10. Take a node that is not the goal node and whose heuristic has not been
  computed, and a condition on which it disagrees with the start worldstate. When the goal
  worldstate, the node and the start worldstate all hold integers for the condition and
  the goal's value equals the start's value, the distance of that condition is a division
  by zero, not the default distance, and \<^verbatim>\<open>ZeroDivisionError\<close> leaves the heuristic
  computation. The arithmetic raises \<^verbatim>\<open>TypeError\<close>, which gives the default distance,
  exactly when one of the three values is not a number.
\<close>

theorem heuristic_zero_division:
  assumes "heuristic_distance n = None" and "\<not> is_goal n"
    and "parent_nodes_path_list n = gn # ps"
    and "c \<in> set (get_unsatisfied_conditions (worldstate n) start)"
    and "map_of (worldstate gn) c = Some (IntV gv)"
    and "map_of (worldstate n) c = Some (IntV nv)"
    and "map_of start c = Some (IntV sv)"
    and "gv = sv"
  shows "condition_distance (worldstate gn) (worldstate n) start c = Inl ZeroDivisionError \<and>
         snd (calc_heuristic_distance_for_node start n) = Some ZeroDivisionError \<and>
         (\<forall>g v s. relative_distance g v s = Inl TypeError \<longleftrightarrow>
            num_of g = None \<or> num_of v = None \<or> num_of s = None)"
proof -
  have cd: "condition_distance (worldstate gn) (worldstate n) start c = Inl ZeroDivisionError"
    using assms(5-8)
    by (simp add: condition_distance_def get_condition_value_def relative_distance_def abs_diff_def)
  have "snd (sum_distances (worldstate gn) (worldstate n) start
          (get_unsatisfied_conditions (worldstate n) start) 0) = Some ZeroDivisionError"
    using assms(4) cd by (rule sum_distances_zero_division) (simp add: unsatisfied_differs)
  then have "snd (calc_heuristic_distance_for_node start n) = Some ZeroDivisionError"
    using assms(1-3)
    by (auto simp: calc_heuristic_distance_for_node_def Let_def split: prod.splits option.splits)
  with cd show ?thesis
    by (simp add: relative_distance_type_error)
qed

theorem heuristic_zero_division_witness:
  "heuristic_distance ex_zero_node = None \<and> \<not> is_goal ex_zero_node \<and>
   parent_nodes_path_list ex_zero_node = ex_zero_goal # [] \<and>
   ''x'' \<in> set (get_unsatisfied_conditions (worldstate ex_zero_node) [(''x'', IntV 0)]) \<and>
   map_of (worldstate ex_zero_goal) ''x'' = Some (IntV 0) \<and>
   map_of (worldstate ex_zero_node) ''x'' = Some (IntV 5) \<and>
   map_of [(''x'', IntV 0)] ''x'' = Some (IntV 0) \<and>
   snd (calc_heuristic_distance_for_node [(''x'', IntV 0)] ex_zero_node) = Some ZeroDivisionError"
proof -
  have 1: "heuristic_distance ex_zero_node = None" by (simp add: ex_zero_node_def)
  have 2: "\<not> is_goal ex_zero_node" by (simp add: ex_zero_node_def is_goal_def)
  have 3: "parent_nodes_path_list ex_zero_node = ex_zero_goal # []"
    by (simp add: ex_zero_node_def)
  have 4: "''x'' \<in> set (get_unsatisfied_conditions (worldstate ex_zero_node) [(''x'', IntV 0)])"
    by (simp add: ex_zero_node_def get_unsatisfied_conditions_def differs_def)
  have 5: "map_of (worldstate ex_zero_goal) ''x'' = Some (IntV 0)"
    by (simp add: ex_zero_goal_def)
  have 6: "map_of (worldstate ex_zero_node) ''x'' = Some (IntV 5)"
    by (simp add: ex_zero_node_def)
  have 7: "map_of [(''x'', IntV 0)] ''x'' = Some (IntV 0)" by simp
  from heuristic_zero_division [OF 1 2 3 4 5 6 7 refl] 1 2 3 4 5 6 7
  show ?thesis by simp
qed

subsection \<open>Calling twice\<close>

lemma get_child_nodes_loop_ok:
  assumes "get_child_nodes_loop st self as = (self', None)"
  shows "length (possible_prev_nodes self') = length (possible_prev_nodes self) + length as"
  using assms
proof (induction as arbitrary: self)
  case Nil
  then show ?case by simp
next
  case (Cons a as)
  then show ?case
    by (auto split: prod.splits option.splits)
qed

text \<open>
  The second calls that the two assertions catch. \<^verbatim>\<open>get_child_nodes\<close> asserts that
  \<^verbatim>\<open>possible_prev_nodes\<close> is empty: a second call fails with \<^verbatim>\<open>AssertionError\<close> when the
  first call returned for a list of at least one action. A second computation of the
  heuristic fails for every node, and with \<^verbatim>\<open>AssertionError\<close> whenever the first
  computation returned.
\<close>

theorem second_call_fails:
  "(get_child_nodes actions start n = (n1, Inr cs) \<and> actions \<noteq> [] \<longrightarrow>
      snd (get_child_nodes actions' start' n1) = Inl AssertionError) \<and>
   snd (calc_heuristic_distance_for_node start'
          (fst (calc_heuristic_distance_for_node start n))) \<noteq> None \<and>
   (snd (calc_heuristic_distance_for_node start n) = None \<longrightarrow>
      snd (calc_heuristic_distance_for_node start'
          (fst (calc_heuristic_distance_for_node start n))) = Some AssertionError)"
proof (intro conjI impI)
  assume a: "get_child_nodes actions start n = (n1, Inr cs) \<and> actions \<noteq> []"
  then obtain l where "get_child_nodes_loop start n actions = (n1, None)"
    by (auto simp: get_child_nodes_def split: if_splits prod.splits option.splits)
  from get_child_nodes_loop_ok [OF this] a have "possible_prev_nodes n1 \<noteq> []"
    by auto
  then show "snd (get_child_nodes actions' start' n1) = Inl AssertionError"
    by (simp add: get_child_nodes_def)
next
  show "snd (calc_heuristic_distance_for_node start'
          (fst (calc_heuristic_distance_for_node start n))) \<noteq> None"
    by (auto simp: calc_heuristic_distance_for_node_def Let_def
        split: if_splits list.splits prod.splits option.splits)
next
  assume "snd (calc_heuristic_distance_for_node start n) = None"
  then show "snd (calc_heuristic_distance_for_node start'
          (fst (calc_heuristic_distance_for_node start n))) = Some AssertionError"
    by (auto simp: calc_heuristic_distance_for_node_def Let_def
        split: if_splits list.splits prod.splits option.splits)
qed

lemma ex_fresh_child:
  "calc_heuristic_distance_for_node [(''x'', IntV 0)]
     (make_child [(''x'', IntV 0)] ex_fresh_node ex_clamp_action) =
   (set_heuristic_distance (make_child [(''x'', IntV 0)] ex_fresh_node ex_clamp_action) 1, None)"
  by (simp add: calc_heuristic_distance_for_node_def make_child_def ex_fresh_node_def
      ex_clamp_action_def is_goal_def get_unsatisfied_conditions_def differs_def
      condition_distance_def get_condition_value_def relative_distance_def abs_diff_def)

lemma ex_fresh_expand:
  "get_child_nodes [ex_clamp_action] [(''x'', IntV 0)] ex_fresh_node =
     (append_prev_node ex_fresh_node
        (set_heuristic_distance (make_child [(''x'', IntV 0)] ex_fresh_node ex_clamp_action) 1),
      Inr [set_heuristic_distance (make_child [(''x'', IntV 0)] ex_fresh_node ex_clamp_action) 1])"
  by (simp add: get_child_nodes_def ex_fresh_child) (simp add: ex_fresh_node_def)

theorem second_call_fails_witness:
  "get_child_nodes [ex_clamp_action] [(''x'', IntV 0)] ex_fresh_node =
     (append_prev_node ex_fresh_node
        (set_heuristic_distance (make_child [(''x'', IntV 0)] ex_fresh_node ex_clamp_action) 1),
      Inr [set_heuristic_distance (make_child [(''x'', IntV 0)] ex_fresh_node ex_clamp_action) 1]) \<and>
   snd (get_child_nodes [ex_clamp_action] [(''x'', IntV 0)]
     (append_prev_node ex_fresh_node
        (set_heuristic_distance (make_child [(''x'', IntV 0)] ex_fresh_node ex_clamp_action) 1)))
     = Inl AssertionError \<and>
   snd (calc_heuristic_distance_for_node [(''x'', IntV 0)] ex_fresh_node) = None \<and>
   snd (calc_heuristic_distance_for_node [(''x'', IntV 0)]
          (fst (calc_heuristic_distance_for_node [(''x'', IntV 0)] ex_fresh_node)))
     = Some AssertionError"
proof -
  have h: "snd (calc_heuristic_distance_for_node [(''x'', IntV 0)] ex_fresh_node) = None"
    by (simp add: calc_heuristic_distance_for_node_def ex_fresh_node_def is_goal_def)
  from second_call_fails [of "[ex_clamp_action]" "[(''x'', IntV 0)]" ex_fresh_node _ _
      "[ex_clamp_action]" "[(''x'', IntV 0)]"] ex_fresh_expand h
  show ?thesis by simp
qed

text \<open>
  Claim C5: a second call of \<^verbatim>\<open>get_child_nodes\<close> on a node must fail, as a second
  computation of its heuristic does. The code misses a case. The assertion, whose message
  says that \<^verbatim>\<open>get_child_nodes\<close> is not safe to be called twice, tests whether
  \<^verbatim>\<open>possible_prev_nodes\<close> is empty. At a node whose first expansion was over no action
  the list stays empty: the first call returns the empty list, and a second call on the
  node as the first call left it passes the assertion, returning the empty list again for
  no action and a new child for one action. The heuristic's assertion is on
  \<^verbatim>\<open>heuristic_distance\<close> itself and fails at the same node the second time.
\<close>

theorem second_expansion_passes_assertion:
  "get_child_nodes [] [(''x'', IntV 0)] ex_fresh_node = (ex_fresh_node, Inr []) \<and>
   snd (get_child_nodes [] [(''x'', IntV 0)]
          (fst (get_child_nodes [] [(''x'', IntV 0)] ex_fresh_node))) = Inr [] \<and>
   snd (get_child_nodes [ex_clamp_action] [(''x'', IntV 0)]
          (fst (get_child_nodes [] [(''x'', IntV 0)] ex_fresh_node))) =
     Inr [set_heuristic_distance (make_child [(''x'', IntV 0)] ex_fresh_node ex_clamp_action) 1] \<and>
   snd (calc_heuristic_distance_for_node [(''x'', IntV 0)]
          (fst (calc_heuristic_distance_for_node [(''x'', IntV 0)] ex_fresh_node))) =
     Some AssertionError"
proof -
  have e: "get_child_nodes [] [(''x'', IntV 0)] ex_fresh_node = (ex_fresh_node, Inr [])"
    by (simp add: get_child_nodes_def ex_fresh_node_def)
  have h: "snd (calc_heuristic_distance_for_node [(''x'', IntV 0)]
          (fst (calc_heuristic_distance_for_node [(''x'', IntV 0)] ex_fresh_node))) =
     Some AssertionError"
    by (simp add: calc_heuristic_distance_for_node_def ex_fresh_node_def is_goal_def)
  from e h show ?thesis
    by (simp add: ex_fresh_expand)
qed

subsection \<open>The events of an execution\<close>

lemma execute_failed_check_last:
  "execute w n = (r, events, w') \<Longrightarrow> events = pre @ e # post \<Longrightarrow> failed_check e \<Longrightarrow>
     post = [] \<and> r = Inr False \<and> (\<forall>x\<in>set pre. \<not> failed_check x)"
proof (induction w n arbitrary: r events w' pre rule: execute.induct)
  case (1 w start_node)
  show ?case
  proof (cases "length (parent_nodes_path_list start_node) \<noteq> length (parent_actions_path_list start_node)")
    case True
    with "1.prems" show ?thesis by (simp add: execute.simps [of w start_node])
  next
    case len: False
    show ?thesis
    proof (cases "action start_node")
      case None
      with len "1.prems" show ?thesis by (simp add: execute.simps [of w start_node])
    next
      case (Some a)
      show ?thesis
      proof (cases "parent_node start_node")
        case (Inl x)
        with len Some "1.prems" show ?thesis by (simp add: execute.simps [of w start_node])
      next
        case (Inr next_node)
        show ?thesis
        proof (cases "is_valid a (worldstate start_node) \<and> check_freeform_context a w")
          case False
          with len Some Inr "1.prems" show ?thesis
            by (auto simp: execute.simps [of w start_node] failed_check_def Cons_eq_append_conv
                append_eq_Cons_conv split: if_splits)
        next
          case True
          obtain ws' w1 where run: "run a (worldstate next_node) w = (ws', w1)"
            by (cases "run a (worldstate next_node) w")
          obtain r2 ev2 w2 where rec: "execute w1 (set_worldstate next_node ws') = (r2, ev2, w2)"
            by (cases "execute w1 (set_worldstate next_node ws')")
          from len Some Inr True run rec "1.prems"(1)
          have ev: "events = Validated a (worldstate start_node) True # Checked a w True
                      # Ran a (worldstate next_node) w # ev2" and r: "r = r2"
            by (simp_all add: execute.simps [of w start_node])
          from ev "1.prems"(2,3) obtain pre2 where
            pre: "pre = Validated a (worldstate start_node) True # Checked a w True
                      # Ran a (worldstate next_node) w # pre2" and ev2: "ev2 = pre2 @ e # post"
            by (auto simp: Cons_eq_append_conv append_eq_Cons_conv failed_check_def)
          from True have v: "is_valid a (worldstate start_node)"
            and c: "check_freeform_context a w" by simp_all
          have "post = [] \<and> r2 = Inr False \<and> (\<forall>x\<in>set pre2. \<not> failed_check x)"
            using "1.IH" [OF len Some Inr v c run [symmetric] rec ev2 "1.prems"(3)] .
          with pre r show ?thesis by (simp add: failed_check_def)
        qed
      qed
    qed
  qed
qed

lemma execute_shape:
  obtains (stop) r where "execute w n = (r, [], w)"
  | (invalid) a where "action n = Some a" "\<not> is_valid a (worldstate n)"
      "execute w n = (Inr False, [Validated a (worldstate n) False], w)"
  | (refused) a where "action n = Some a" "is_valid a (worldstate n)"
      "\<not> check_freeform_context a w"
      "execute w n = (Inr False, [Validated a (worldstate n) True, Checked a w False], w)"
  | (ran) a next_node where "action n = Some a" "parent_node n = Inr next_node"
      "is_valid a (worldstate n)" "check_freeform_context a w"
      "length (parent_nodes_path_list n) = length (parent_actions_path_list n)"
      "execute w n =
         (fst (execute (snd (run a (worldstate next_node) w))
                 (set_worldstate next_node (fst (run a (worldstate next_node) w)))),
          Validated a (worldstate n) True # Checked a w True # Ran a (worldstate next_node) w
            # fst (snd (execute (snd (run a (worldstate next_node) w))
                 (set_worldstate next_node (fst (run a (worldstate next_node) w))))),
          snd (snd (execute (snd (run a (worldstate next_node) w))
                 (set_worldstate next_node (fst (run a (worldstate next_node) w))))))"
proof (cases "length (parent_nodes_path_list n) \<noteq> length (parent_actions_path_list n)")
  case True
  then show ?thesis by (intro stop) (simp add: execute.simps [of w n])
next
  case len: False
  show ?thesis
  proof (cases "action n")
    case None
    with len show ?thesis by (intro stop) (simp add: execute.simps [of w n])
  next
    case (Some a)
    show ?thesis
    proof (cases "parent_node n")
      case (Inl e)
      with len Some show ?thesis by (intro stop) (simp add: execute.simps [of w n])
    next
      case (Inr next_node)
      show ?thesis
      proof (cases "is_valid a (worldstate n)")
        case False
        with len Some Inr show ?thesis
          by (intro invalid [of a]) (simp_all add: execute.simps [of w n])
      next
        case v: True
        show ?thesis
        proof (cases "check_freeform_context a w")
          case False
          with len Some Inr v show ?thesis
            by (intro refused [of a]) (simp_all add: execute.simps [of w n])
        next
          case True
          with len Some Inr v show ?thesis
            by (intro ran [of a next_node])
              (simp_all add: execute.simps [of w n] split: prod.splits)
        qed
      qed
    qed
  qed
qed

subsection \<open>What the executor validates\<close>

text \<open>
  Claim C3, as the code has it. Every call of \<^verbatim>\<open>run\<close> is made right after the freeform
  context of the same action was checked with a positive result, and that right after
  \<^verbatim>\<open>is_valid\<close> of the same action returned true. The worldstate given to \<^verbatim>\<open>is_valid\<close>
  is the one stored in the current node: at the first step the worldstate recorded in the
  start node when the plan was made, at every later step what the \<^verbatim>\<open>run\<close> of the step
  before returned for the worldstate recorded in that node. \<^verbatim>\<open>execute\<close> has no other
  worldstate to look at.
\<close>

theorem run_preceded_by_checks:
  "execute w n = (r, events, w') \<Longrightarrow> i < length events \<Longrightarrow> events ! i = Ran a ws wi \<Longrightarrow>
     2 \<le> i \<and> events ! (i - 1) = Checked a wi True \<and> check_freeform_context a wi \<and>
     (\<exists>cur. events ! (i - 2) = Validated a cur True \<and> is_valid a cur \<and>
        (i = 2 \<longrightarrow> cur = worldstate n \<and> wi = w) \<and>
        (2 < i \<longrightarrow> (\<exists>a0 ws0 w0. events ! (i - 3) = Ran a0 ws0 w0 \<and>
            cur = fst (run a0 ws0 w0) \<and> wi = snd (run a0 ws0 w0))))"
proof (induction w n arbitrary: r events w' i rule: execute.induct)
  case (1 w n)
  show ?case
  proof (cases rule: execute_shape [of w n])
    case (stop r)
    with "1.prems" show ?thesis by simp
  next
    case (invalid b)
    with "1.prems" show ?thesis by auto
  next
    case (refused b)
    with "1.prems" show ?thesis by (auto simp: nth_Cons' split: if_splits)
  next
    case (ran b next_node)
    define ws1 where "ws1 = fst (run b (worldstate next_node) w)"
    define w1 where "w1 = snd (run b (worldstate next_node) w)"
    define ev2 where "ev2 = fst (snd (execute w1 (set_worldstate next_node ws1)))"
    have run: "(ws1, w1) = run b (worldstate next_node) w"
      by (simp add: ws1_def w1_def)
    have ev: "events = Validated b (worldstate n) True # Checked b w True
                 # Ran b (worldstate next_node) w # ev2"
      using ran(6) "1.prems"(1) by (simp add: ev2_def ws1_def w1_def)
    obtain r2 w2 where rec: "execute w1 (set_worldstate next_node ws1) = (r2, ev2, w2)"
      by (cases "execute w1 (set_worldstate next_node ws1)") (simp add: ev2_def)
    have len: "\<not> length (parent_nodes_path_list n) \<noteq> length (parent_actions_path_list n)"
      using ran(5) by simp
    note IH = "1.IH" [OF len ran(1,2,3,4) run rec]
    consider "i = 0" | "i = 1" | "i = 2" | "3 \<le> i" by linarith
    then show ?thesis
    proof cases
      case 1
      with ev "1.prems" show ?thesis by simp
    next
      case 2
      with ev "1.prems" show ?thesis by simp
    next
      case 3
      with ev "1.prems" ran(3,4) show ?thesis by simp
    next
      case 4
      define j where "j = i - 3"
      with 4 have i: "i = j + 3" by simp
      from "1.prems"(2,3) ev i have j: "j < length ev2" "ev2 ! j = Ran a ws wi"
        by simp_all
      from IH [OF j] obtain cur where
        c: "2 \<le> j" "ev2 ! (j - 1) = Checked a wi True" "check_freeform_context a wi"
          "ev2 ! (j - 2) = Validated a cur True" "is_valid a cur"
          "j = 2 \<longrightarrow> cur = ws1 \<and> wi = w1"
          "2 < j \<longrightarrow> (\<exists>a0 ws0 w0. ev2 ! (j - 3) = Ran a0 ws0 w0 \<and>
            cur = fst (run a0 ws0 w0) \<and> wi = snd (run a0 ws0 w0))"
        by auto
      have "i - 1 = Suc (Suc (Suc (j - 1)))" using c(1) i by simp
      then have e1: "events ! (i - 1) = ev2 ! (j - 1)"
        by (simp add: ev)
      have "i - 2 = Suc (Suc (Suc (j - 2)))" using c(1) i by simp
      then have e2: "events ! (i - 2) = ev2 ! (j - 2)"
        by (simp add: ev)
      have e3: "events ! (i - 3) = (if j = 2 then Ran b (worldstate next_node) w else ev2 ! (j - 3))"
      proof (cases "j = 2")
        case True
        with i have "i - 3 = Suc (Suc 0)" by simp
        with True show ?thesis by (simp add: ev)
      next
        case False
        with c(1) i have "i - 3 = Suc (Suc (Suc (j - 3)))" by simp
        with False show ?thesis by (simp add: ev)
      qed
      show ?thesis
        using c e1 e2 e3 i by (auto simp: ws1_def w1_def)
    qed
  qed
qed

subsection \<open>A failed check ends the execution\<close>

text \<open>
  Claim C8. When \<^verbatim>\<open>is_valid\<close> or the freeform context check of the action of a step
  fails, that call of \<^verbatim>\<open>execute\<close> returns \<^verbatim>\<open>False\<close>, makes no call of \<^verbatim>\<open>run\<close> and
  leaves the world as it is. In the events of a whole execution a failed check is the
  last event, no check before it failed, and the result is \<^verbatim>\<open>False\<close>: nothing is run
  and no later step is entered after a failed check.
\<close>

theorem failed_check_aborts:
  "(action n = Some a \<and> parent_node n = Inr next_node \<and>
      length (parent_nodes_path_list n) = length (parent_actions_path_list n) \<and>
      \<not> (is_valid a (worldstate n) \<and> check_freeform_context a w) \<longrightarrow>
        fst (execute w n) = Inr False \<and> snd (snd (execute w n)) = w \<and>
        (\<forall>e\<in>set (fst (snd (execute w n))). failed_check e \<or> e = Validated a (worldstate n) True)) \<and>
   (execute w0 n0 = (r, events, w') \<and> events = pre @ e # post \<and> failed_check e \<longrightarrow>
      post = [] \<and> r = Inr False \<and> (\<forall>x\<in>set pre. \<not> failed_check x))"
proof -
  have step: "fst (execute w n) = Inr False \<and> snd (snd (execute w n)) = w \<and>
        (\<forall>e\<in>set (fst (snd (execute w n))). failed_check e \<or> e = Validated a (worldstate n) True)"
    if a: "action n = Some a \<and> parent_node n = Inr next_node \<and>
      length (parent_nodes_path_list n) = length (parent_actions_path_list n) \<and>
      \<not> (is_valid a (worldstate n) \<and> check_freeform_context a w)"
  proof -
    from a have "execute w n = (Inr False, [Validated a (worldstate n) False], w) \<or>
      execute w n = (Inr False, [Validated a (worldstate n) True, Checked a w False], w)"
      by (auto simp: execute.simps [of w n])
    then show ?thesis
      by (auto simp: failed_check_def)
  qed
  have trace: "post = [] \<and> r = Inr False \<and> (\<forall>x\<in>set pre. \<not> failed_check x)"
    if "execute w0 n0 = (r, events, w') \<and> events = pre @ e # post \<and> failed_check e"
    using that execute_failed_check_last [of w0 n0 r events w' pre e post] by simp
  from step trace show ?thesis by blast
qed

lemma ex_open_execute:
  "execute ex_live ex_open_node =
     (Inr True,
      [Validated ex_open [(''at_door'', IntV 1)] True, Checked ex_open ex_live True,
       Ran ex_open [(''door'', IntV 1)] ex_live],
      [(''door'', IntV 1), (''at_door'', IntV 0)])"
proof -
  have g: "execute w (set_worldstate ex_door_goal ws) = (Inr True, [], w)" for w ws
    by (subst execute.simps) (simp add: ex_door_goal_def)
  have r: "run ex_open (worldstate ex_door_goal) ex_live =
     ([(''door'', IntV 1)], [(''door'', IntV 1), (''at_door'', IntV 0)])"
    by (simp add: ex_open_def ex_door_goal_def ex_live_def set_condition_value_def)
  have "action ex_open_node = Some ex_open" "parent_node ex_open_node = Inr ex_door_goal"
    "is_valid ex_open (worldstate ex_open_node)" "check_freeform_context ex_open ex_live"
    "length (parent_nodes_path_list ex_open_node) = length (parent_actions_path_list ex_open_node)"
    "worldstate ex_open_node = [(''at_door'', IntV 1)]"
    "worldstate ex_door_goal = [(''door'', IntV 1)]"
    by (simp_all add: ex_open_node_def parent_node_def ex_open_def ex_door_goal_def)
  then show ?thesis
    using r by (simp add: execute.simps [of ex_live ex_open_node] g)
qed

text \<open>
  Claim C3, as stated, at a plan of one step made when the agent stood at the door, and
  executed when it does not: \<^verbatim>\<open>is_valid\<close> is asked about the worldstate recorded in the
  node, answers true, and the action is run, although its precondition does not hold in
  the live worldstate.
\<close>

theorem validates_plan_time_state_counterexample:
  "fst (execute ex_live ex_open_node) = Inr True \<and>
   fst (snd (execute ex_live ex_open_node)) =
     [Validated ex_open (worldstate ex_open_node) True, Checked ex_open ex_live True,
      Ran ex_open [(''door'', IntV 1)] ex_live] \<and>
   \<not> is_valid ex_open ex_live"
  by (simp add: ex_open_execute) (simp add: ex_open_node_def ex_open_def ex_live_def)

lemma ex_walk_execute:
  "execute ex_live ex_walk_node =
     (Inr False,
      [Validated ex_walk [] True, Checked ex_walk ex_live True,
       Ran ex_walk [(''at_door'', IntV 1)] ex_live,
       Validated ex_open [(''at_door'', IntV 0)] False],
      ex_live)"
proof -
  have r: "run ex_walk (worldstate ex_open_node) ex_live = ([(''at_door'', IntV 0)], ex_live)"
    by (simp add: ex_walk_def ex_open_node_def ex_live_def set_condition_value_def)
  have o: "execute ex_live (set_worldstate ex_open_node [(''at_door'', IntV 0)]) =
     (Inr False, [Validated ex_open [(''at_door'', IntV 0)] False], ex_live)"
    by (subst execute.simps) (simp add: parent_node_def ex_open_node_def ex_open_def)
  have "action ex_walk_node = Some ex_walk" "parent_node ex_walk_node = Inr ex_open_node"
    "is_valid ex_walk (worldstate ex_walk_node)" "check_freeform_context ex_walk ex_live"
    "length (parent_nodes_path_list ex_walk_node) = length (parent_actions_path_list ex_walk_node)"
    "worldstate ex_walk_node = []"
    "worldstate ex_open_node = [(''at_door'', IntV 1)]"
    by (simp_all add: ex_walk_node_def parent_node_def ex_walk_def ex_open_node_def)
  then show ?thesis
    using r by (simp add: execute.simps [of ex_live ex_walk_node] o)
qed

theorem failed_check_aborts_witness:
  "execute ex_live ex_walk_node =
     (Inr False,
      [Validated ex_walk [] True, Checked ex_walk ex_live True,
       Ran ex_walk [(''at_door'', IntV 1)] ex_live]
      @ Validated ex_open [(''at_door'', IntV 0)] False # [], ex_live) \<and>
   failed_check (Validated ex_open [(''at_door'', IntV 0)] False :: worldstate event) \<and>
   \<not> failed_check (Validated ex_walk [] True) \<and>
   \<not> failed_check (Checked ex_walk ex_live True) \<and>
   \<not> failed_check (Ran ex_walk [(''at_door'', IntV 1)] ex_live) \<and>
   action ex_open_node = Some ex_open \<and> parent_node ex_open_node = Inr ex_door_goal \<and>
   \<not> is_valid ex_open [(''at_door'', IntV 0)] \<and>
   fst (execute ex_live (set_worldstate ex_open_node [(''at_door'', IntV 0)])) = Inr False"
proof -
  let ?pre = "[Validated ex_walk [] True, Checked ex_walk ex_live True,
       Ran ex_walk [(''at_door'', IntV 1)] ex_live]"
  let ?e = "Validated ex_open [(''at_door'', IntV 0)] False :: worldstate event"
  let ?n = "set_worldstate ex_open_node [(''at_door'', IntV 0)]"
  have f: "failed_check ?e" by (simp add: failed_check_def)
  have x: "execute ex_live ex_walk_node = (Inr False, ?pre @ ?e # [], ex_live)"
    by (simp add: ex_walk_execute)
  have s: "action ?n = Some ex_open" "parent_node ?n = Inr ex_door_goal"
    "length (parent_nodes_path_list ?n) = length (parent_actions_path_list ?n)"
    "\<not> is_valid ex_open (worldstate ?n)"
    by (simp_all add: ex_open_node_def parent_node_def ex_open_def)
  have t: "action ex_open_node = Some ex_open" "parent_node ex_open_node = Inr ex_door_goal"
    "\<not> is_valid ex_open [(''at_door'', IntV 0)]"
    by (simp_all add: ex_open_node_def parent_node_def ex_open_def)
  from failed_check_aborts [of ?n ex_open ex_door_goal ex_live ex_live ex_walk_node "Inr False"
      "?pre @ ?e # []" ex_live ?pre ?e "[]"] f x s t
  show ?thesis by simp
qed

lemma ex_walk_execute_at_door:
  "execute ex_live_at_door ex_walk_node =
     (Inr True,
      [Validated ex_walk [] True, Checked ex_walk ex_live_at_door True,
       Ran ex_walk [(''at_door'', IntV 1)] ex_live_at_door,
       Validated ex_open [(''at_door'', IntV 1)] True, Checked ex_open ex_live_at_door True,
       Ran ex_open [(''door'', IntV 1)] ex_live_at_door],
      [(''door'', IntV 1), (''at_door'', IntV 1)])"
proof -
  have g: "execute w (set_worldstate ex_door_goal ws) = (Inr True, [], w)" for w ws
    by (subst execute.simps) (simp add: ex_door_goal_def)
  have r: "run ex_walk (worldstate ex_open_node) ex_live_at_door =
      ([(''at_door'', IntV 1)], ex_live_at_door)"
    by (simp add: ex_walk_def ex_open_node_def ex_live_at_door_def set_condition_value_def)
  have r2: "run ex_open (worldstate ex_door_goal) ex_live_at_door =
     ([(''door'', IntV 1)], [(''door'', IntV 1), (''at_door'', IntV 1)])"
    by (simp add: ex_open_def ex_door_goal_def ex_live_at_door_def set_condition_value_def)
  have o: "execute ex_live_at_door (set_worldstate ex_open_node [(''at_door'', IntV 1)]) =
     (Inr True, [Validated ex_open [(''at_door'', IntV 1)] True,
        Checked ex_open ex_live_at_door True, Ran ex_open [(''door'', IntV 1)] ex_live_at_door],
      [(''door'', IntV 1), (''at_door'', IntV 1)])"
  proof -
    let ?n = "set_worldstate ex_open_node [(''at_door'', IntV 1)]"
    have "action ?n = Some ex_open" "parent_node ?n = Inr ex_door_goal"
      "is_valid ex_open (worldstate ?n)" "check_freeform_context ex_open ex_live_at_door"
      "length (parent_nodes_path_list ?n) = length (parent_actions_path_list ?n)"
      "worldstate ?n = [(''at_door'', IntV 1)]"
      "worldstate ex_door_goal = [(''door'', IntV 1)]"
      by (simp_all add: ex_open_node_def parent_node_def ex_open_def ex_door_goal_def)
    then show ?thesis
      using r2 by (simp add: execute.simps [of ex_live_at_door ?n] g)
  qed
  have "action ex_walk_node = Some ex_walk" "parent_node ex_walk_node = Inr ex_open_node"
    "is_valid ex_walk (worldstate ex_walk_node)" "check_freeform_context ex_walk ex_live_at_door"
    "length (parent_nodes_path_list ex_walk_node) = length (parent_actions_path_list ex_walk_node)"
    "worldstate ex_walk_node = []"
    "worldstate ex_open_node = [(''at_door'', IntV 1)]"
    by (simp_all add: ex_walk_node_def parent_node_def ex_walk_def ex_open_node_def)
  then show ?thesis
    using r by (simp add: execute.simps [of ex_live_at_door ex_walk_node] o)
qed

theorem run_preceded_by_checks_witness:
  "execute ex_live_at_door ex_walk_node =
     (Inr True,
      [Validated ex_walk [] True, Checked ex_walk ex_live_at_door True,
       Ran ex_walk [(''at_door'', IntV 1)] ex_live_at_door,
       Validated ex_open [(''at_door'', IntV 1)] True, Checked ex_open ex_live_at_door True,
       Ran ex_open [(''door'', IntV 1)] ex_live_at_door],
      [(''door'', IntV 1), (''at_door'', IntV 1)]) \<and>
   is_valid ex_open (fst (run ex_walk [(''at_door'', IntV 1)] ex_live_at_door)) \<and>
   check_freeform_context ex_open ex_live_at_door"
proof -
  let ?events = "[Validated ex_walk [] True, Checked ex_walk ex_live_at_door True,
       Ran ex_walk [(''at_door'', IntV 1)] ex_live_at_door,
       Validated ex_open [(''at_door'', IntV 1)] True, Checked ex_open ex_live_at_door True,
       Ran ex_open [(''door'', IntV 1)] ex_live_at_door]"
  have i: "5 < length ?events" by simp
  have e: "?events ! 5 = Ran ex_open [(''door'', IntV 1)] ex_live_at_door" by simp
  from run_preceded_by_checks [OF ex_walk_execute_at_door i e] ex_walk_execute_at_door
  show ?thesis by (auto simp: numeral_eq_Suc)
qed

subsection \<open>The planner loop\<close>

lemma plan_prepared:
  "plan w actions st g = plan_loop st (checked_actions_of w actions) 0 [prepared_goal_node st g]"
  by (simp add: plan_def prepared_goal_node_def calc_heuristic_distance_for_node_def goal_node_def
      is_goal_def Let_def)

lemma prepared_goal_node_sel [simp]:
  "action (prepared_goal_node st g) = None"
  "parent_nodes_path_list (prepared_goal_node st g) = []"
  "parent_actions_path_list (prepared_goal_node st g) = []"
  "possible_prev_nodes (prepared_goal_node st g) = []"
  "heuristic_distance (prepared_goal_node st g) \<noteq> None"
  "worldstate (prepared_goal_node st g) = goal_apply_preconditions g []"
  by (simp_all add: prepared_goal_node_def calc_heuristic_distance_for_node_def goal_node_def
      is_goal_def Let_def)

lemma search_state_plan_loop:
  "search_state st chk g0 lc q arr pp \<Longrightarrow> plan_loop st chk lc q = plan_loop st chk 0 [g0]"
proof (induction rule: search_state.induct)
  case search_init
  show ?case by simp
next
  case (search_step lc cur rest arr pp expanded new q)
  have "plan_loop st chk lc (cur # rest) = plan_loop st chk (Suc lc) q"
    using search_step.hyps(2-5)
    by (simp add: plan_loop.simps [of st chk lc "cur # rest"] plan_iteration_def)
  with search_step.IH show ?case by simp
qed

lemma plan_loop_result:
  assumes "search_state st chk g0 lc q arr pp"
  shows "(plan_loop st chk lc q = Inr (Some n) \<longrightarrow>
           (\<exists>lc' rest arr' pp'. search_state st chk g0 lc' (n # rest) arr' pp' \<and> lc' < 500 \<and>
              matches st (worldstate n))) \<and>
         (plan_loop st chk lc q = Inr None \<longrightarrow>
           (\<exists>lc' q' arr' pp'. search_state st chk g0 lc' q' arr' pp' \<and> (q' = [] \<or> 500 \<le> lc')))"
  using assms
proof (induction st chk lc q arbitrary: arr pp rule: plan_loop.induct)
  case (1 st chk lc q)
  show ?case
  proof (cases q)
    case Nil
    with "1.prems" show ?thesis
      by (auto simp: plan_loop.simps [of st chk lc "[]"])
  next
    case (Cons cur rest)
    show ?thesis
    proof (cases "500 < lc + 1")
      case True
      with Cons "1.prems" show ?thesis
        by (auto simp: plan_loop.simps [of st chk lc "cur # rest"] intro!: exI)
    next
      case lim: False
      show ?thesis
      proof (cases "plan_iteration st chk cur rest")
        case (Found m)
        then have "m = cur" "matches st (worldstate cur)"
          by (auto simp: plan_iteration_def split: if_splits prod.splits sum.splits)
        with Found Cons lim "1.prems" show ?thesis
          by (auto simp: plan_loop.simps [of st chk lc "cur # rest"] intro!: exI)
      next
        case (Raised e)
        with Cons lim show ?thesis
          by (simp add: plan_loop.simps [of st chk lc "cur # rest"])
      next
        case (Continue q')
        then obtain expanded new where
          e: "\<not> matches st (worldstate cur)" "expand st chk cur = (expanded, Inr new)"
             "sorted_by_total_cost (rest @ new) = Inr q'"
          by (auto simp: plan_iteration_def split: if_splits prod.splits sum.splits)
        from lim have "lc < 500" by simp
        from search_step [OF "1.prems" [unfolded Cons] this e]
        have s: "search_state st chk g0 (Suc lc) q' (remove1 cur arr @ new) (pp @ [cur])" .
        have eq: "plan_loop st chk lc q = plan_loop st chk (lc + 1) q'"
          using Cons lim Continue by (simp add: plan_loop.simps [of st chk lc "cur # rest"])
        from "1.IH" [OF Cons lim Continue] s show ?thesis
          unfolding eq by simp
      qed
    qed
  qed
qed

lemma sorted_by_total_cost_Inr:
  "sorted_by_total_cost xs = Inr q \<Longrightarrow>
     q = sort_key cost_key xs \<and> (\<forall>n\<in>set xs. heuristic_distance n \<noteq> None)"
  by (auto simp: sorted_by_total_cost_def list_all_iff split: if_splits)

lemma sort_key_after_removal:
  assumes "sort_key f arr = cur # rest"
  shows "sort_key f (remove1 cur arr @ new) = sort_key f (rest @ new)"
proof (rule properties_for_sort_key)
  have "mset arr = mset (cur # rest)"
    using assms by (metis mset_sort)
  then show "mset (sort_key f (rest @ new)) = mset (remove1 cur arr @ new)"
    by simp
next
  fix k
  have st: "filter (\<lambda>x. f k = f x) (cur # rest) = filter (\<lambda>x. f k = f x) arr"
    using sort_key_stable [of f "f k" arr] assms by (simp add: eq_commute)
  have "filter (\<lambda>x. f k = f x) (remove1 cur arr)
          = remove1 cur (filter (\<lambda>x. f k = f x) (cur # rest))"
    by (simp only: filter_remove1 st)
  also have "\<dots> = filter (\<lambda>x. f k = f x) rest"
    by (simp add: remove1_idem)
  finally have r: "filter (\<lambda>x. f k = f x) (remove1 cur arr) = filter (\<lambda>x. f k = f x) rest" .
  have "filter (\<lambda>x. f k = f x) (sort_key f (rest @ new)) = filter (\<lambda>x. f k = f x) (rest @ new)"
    using sort_key_stable [of f "f k" "rest @ new"] by (simp add: eq_commute)
  with r show "filter (\<lambda>x. f k = f x) (sort_key f (rest @ new))
      = filter (\<lambda>x. f k = f x) (remove1 cur arr @ new)"
    by simp
next
  show "sorted (map f (sort_key f (rest @ new)))"
    by simp
qed

lemma search_state_invariant:
  "search_state st chk g0 lc q arr pp \<Longrightarrow>
     lc = length pp \<and> lc \<le> 500 \<and> q = sort_key cost_key arr \<and>
     (\<forall>p\<in>set pp. \<not> matches st (worldstate p))"
proof (induction rule: search_state.induct)
  case search_init
  show ?case by simp
next
  case (search_step lc cur rest arr pp expanded new q)
  from search_step.IH have s: "sort_key cost_key arr = cur # rest" by simp
  from search_step.hyps(5) have "q = sort_key cost_key (rest @ new)"
    by (simp add: sorted_by_total_cost_Inr)
  with sort_key_after_removal [OF s, of new]
  have "q = sort_key cost_key (remove1 cur arr @ new)" by simp
  with search_step show ?case by simp
qed

lemma hd_sort_key_is_first_least:
  assumes "sort_key f xs = y # ys"
  shows "(\<forall>x\<in>set xs. f y \<le> f x) \<and> y = hd (filter (\<lambda>x. f x = f y) xs)"
proof -
  have srt: "sorted (map f (y # ys))"
    using assms by (metis sorted_sort_key)
  have "set xs = set (y # ys)"
    using assms by (metis set_sort)
  with srt have least: "\<forall>x\<in>set xs. f y \<le> f x"
    by auto
  have "filter (\<lambda>x. f x = f y) xs = filter (\<lambda>x. f x = f y) (y # ys)"
    using sort_key_stable [of f "f y" xs] assms by simp
  then have "hd (filter (\<lambda>x. f x = f y) xs) = y"
    by simp
  with least show ?thesis by simp
qed

subsection \<open>The nodes the planner builds\<close>

lemma chain_cong:
  assumes "chain A n" and "action n' = action n"
    and "parent_nodes_path_list n' = parent_nodes_path_list n"
    and "parent_actions_path_list n' = parent_actions_path_list n"
  shows "chain A n'"
  using assms(1)
proof (cases rule: chain.cases)
  case chain_goal
  with assms(2-4) show ?thesis by (rule_tac chain.chain_goal) simp_all
next
  case (chain_child p a)
  with assms(2-4) show ?thesis by (rule_tac chain.chain_child [of A p n' a]) simp_all
qed

lemma chain_lengths:
  "chain A n \<Longrightarrow> length (parent_nodes_path_list n) = length (parent_actions_path_list n)"
  by (induction rule: chain.induct) simp_all

lemma chain_actions:
  "chain A n \<Longrightarrow>
     (\<forall>a. action n = Some a \<longrightarrow> a \<in> A) \<and> set (parent_actions_path_list n) \<subseteq> A \<and>
     (\<forall>m\<in>set (parent_nodes_path_list n). chain A m)"
  by (induction rule: chain.induct) auto

lemma chain_forward_walk:
  "chain A n \<Longrightarrow>
     forward_walk n = Inr (n # rev (parent_nodes_path_list n)) \<and>
     is_goal (last (n # rev (parent_nodes_path_list n))) \<and>
     List.map_filter action (n # rev (parent_nodes_path_list n)) = rev (parent_actions_path_list n)"
proof (induction rule: chain.induct)
  case (chain_goal n)
  then show ?case
    by (simp add: forward_walk.simps [of n] is_goal_def List.map_filter_simps)
next
  case (chain_child p n a)
  from chain_child.hyps have "parent_node n = Inr p"
    by (simp add: parent_node_def)
  with chain_child show ?case
    by (simp add: forward_walk.simps [of n] is_goal_def List.map_filter_simps)
qed

lemma sum_node_cost:
  "sum_list (map node_cost ns) = sum_list (map cost (List.map_filter action ns))"
  by (induction ns) (auto simp: node_cost_def List.map_filter_simps split: option.splits)

lemma path_cost_walk:
  "path_cost n = sum_list (map cost (List.map_filter action (n # rev (parent_nodes_path_list n))))"
proof -
  have "path_cost n = sum_list (map node_cost (n # rev (parent_nodes_path_list n)))"
    by (simp add: path_cost_def rev_map [symmetric] sum_list_rev)
  then show ?thesis by (simp only: sum_node_cost)
qed

lemma get_child_nodes_loop_chain:
  assumes "get_child_nodes_loop st self as = (self', None)"
    and "chain A self" and "set as \<subseteq> A"
  shows "\<exists>cs. possible_prev_nodes self' = possible_prev_nodes self @ cs \<and>
           (\<forall>c\<in>set cs. chain A c \<and> heuristic_distance c \<noteq> None \<and> possible_prev_nodes c = [])"
  using assms
proof (induction as arbitrary: self)
  case Nil
  then show ?case by simp
next
  case (Cons a as)
  obtain child e where
    c0: "calc_heuristic_distance_for_node st (make_child st self a) = (child, e)"
    by (cases "calc_heuristic_distance_for_node st (make_child st self a)")
  with Cons.prems(1) have e: "e = None"
    by (cases e) simp_all
  from c0 e have c: "calc_heuristic_distance_for_node st (make_child st self a) = (child, None)"
    by simp
  with Cons.prems(1) have
    l: "get_child_nodes_loop st (append_prev_node self child) as = (self', None)"
    by simp
  note f = calc_heuristic_ok_cases [OF c]
  have a: "a \<in> A" and sub: "set as \<subseteq> A"
    using Cons.prems(3) by simp_all
  have "chain A (make_child st self a)"
    by (rule chain.chain_child [OF Cons.prems(2), of _ a]) (simp_all add: a)
  then have cc: "chain A child"
    by (rule chain_cong) (simp_all add: f)
  have "chain A (append_prev_node self child)"
    using Cons.prems(2) by (rule chain_cong) simp_all
  from Cons.IH [OF l this sub] obtain cs where
    cs: "possible_prev_nodes self' = possible_prev_nodes (append_prev_node self child) @ cs"
      "\<forall>c\<in>set cs. chain A c \<and> heuristic_distance c \<noteq> None \<and> possible_prev_nodes c = []"
    by blast
  have ch: "possible_prev_nodes child = []" "heuristic_distance child \<noteq> None"
    using f by simp_all
  have "possible_prev_nodes self' = possible_prev_nodes self @ (child # cs)"
    using cs(1) by simp
  moreover have "\<forall>c\<in>set (child # cs).
      chain A c \<and> heuristic_distance c \<noteq> None \<and> possible_prev_nodes c = []"
    using cc ch cs(2) by simp
  ultimately show ?case by blast
qed

lemma expand_loop:
  assumes "expand st chk cur = (cur', Inr new)"
  shows "possible_prev_nodes cur = []"
    and "get_child_nodes_loop st cur (filter_matching_actions st (worldstate cur) chk) = (cur', None)"
    and "new = possible_prev_nodes cur'"
proof -
  let ?l = "get_child_nodes_loop st cur (filter_matching_actions st (worldstate cur) chk)"
  from assms show p: "possible_prev_nodes cur = []"
    by (simp add: expand_def get_child_nodes_def split: if_splits)
  obtain x e where l: "?l = (x, e)" by (cases ?l)
  with assms p have "e = None \<and> x = cur' \<and> new = possible_prev_nodes cur'"
    by (cases e) (auto simp: expand_def get_child_nodes_def)
  with l show "?l = (cur', None)" and "new = possible_prev_nodes cur'"
    by simp_all
qed

lemma expand_chain:
  assumes "expand st chk cur = (cur', Inr new)" and "chain (set chk) cur"
  shows "\<forall>c\<in>set new. chain (set chk) c \<and> heuristic_distance c \<noteq> None \<and> possible_prev_nodes c = []"
proof -
  let ?as = "filter_matching_actions st (worldstate cur) chk"
  note e = expand_loop [OF assms(1)]
  have "set ?as \<subseteq> set chk"
    by (simp add: filter_matching_actions_def)
  from get_child_nodes_loop_chain [OF e(2) assms(2) this] obtain cs where
    "possible_prev_nodes cur' = possible_prev_nodes cur @ cs"
    "\<forall>c\<in>set cs. chain (set chk) c \<and> heuristic_distance c \<noteq> None \<and> possible_prev_nodes c = []"
    by blast
  with e(1,3) show ?thesis by simp
qed

lemma search_state_chain:
  assumes "search_state st chk g0 lc q arr pp"
    and "chain (set chk) g0" and "heuristic_distance g0 \<noteq> None"
  shows "\<forall>n\<in>set arr \<union> set pp. chain (set chk) n \<and> heuristic_distance n \<noteq> None"
  using assms
proof (induction rule: search_state.induct)
  case search_init
  then show ?case by simp
next
  case (search_step lc cur rest arr pp expanded new q)
  from search_state_invariant [OF search_step.hyps(1)]
  have "set (cur # rest) = set arr"
    by (metis set_sort)
  then have cur: "cur \<in> set arr" by auto
  with search_step have c: "chain (set chk) cur" by simp
  from expand_chain [OF search_step.hyps(4) c]
  have "\<forall>c\<in>set new. chain (set chk) c \<and> heuristic_distance c \<noteq> None" by simp
  moreover have "set (remove1 cur arr) \<subseteq> set arr"
    by (rule set_remove1_subset)
  ultimately show ?case
    using search_step cur by auto
qed

lemma prepared_goal_node_chain: "chain A (prepared_goal_node st g)"
  by (rule chain.chain_goal) simp_all

lemma ex_actions_sel [simp]:
  "cost ex_WalkToDoor = 1" "cost ex_OpenDoor = 1"
  "check_freeform_context ex_WalkToDoor w" "check_freeform_context ex_OpenDoor w"
  "\<not> check_freeform_context ex_Teleport w"
  "apply_preconditions ex_WalkToDoor [(''at_door'', IntV 1)] st = []"
  "apply_preconditions ex_OpenDoor [(''door'', IntV 1)] st = [(''at_door'', IntV 1)]"
  "has_satisfying_effects ex_OpenDoor [(''door'', IntV 1)] st [''door'']"
  "\<not> has_satisfying_effects ex_WalkToDoor [(''door'', IntV 1)] st [''door'']"
  "\<not> has_satisfying_effects ex_OpenDoor [(''at_door'', IntV 1)] st [''at_door'']"
  "has_satisfying_effects ex_WalkToDoor [(''at_door'', IntV 1)] st [''at_door'']"
  by (simp_all add: ex_WalkToDoor_def ex_OpenDoor_def ex_Teleport_def simple_action_def)

lemma ex_prepared: "prepared_goal_node ex_door_start ex_door_open_goal = ex_plan_goal_node"
  by (simp add: prepared_goal_node_def calc_heuristic_distance_for_node_def goal_node_def
      is_goal_def ex_door_start_def ex_door_open_goal_def ex_plan_goal_node_def
      get_unsatisfied_conditions_def differs_def set_heuristic_distance_def)

lemma ex_checked:
  "checked_actions_of () [ex_Teleport, ex_WalkToDoor, ex_OpenDoor] = [ex_WalkToDoor, ex_OpenDoor]"
  by (simp add: checked_actions_of_def)

lemma ex_expand_goal:
  "expand ex_door_start [ex_WalkToDoor, ex_OpenDoor] ex_plan_goal_node =
     (append_prev_node ex_plan_goal_node ex_plan_open_node, Inr [ex_plan_open_node])"
proof -
  have u: "get_unsatisfied_conditions [(''door'', IntV 1)] ex_door_start = [''door'']"
    by (simp add: get_unsatisfied_conditions_def differs_def ex_door_start_def)
  have f: "filter_matching_actions ex_door_start (worldstate ex_plan_goal_node)
             [ex_WalkToDoor, ex_OpenDoor] = [ex_OpenDoor]"
    by (simp add: filter_matching_actions_def ex_plan_goal_node_def u)
  have c: "calc_heuristic_distance_for_node ex_door_start
             (make_child ex_door_start ex_plan_goal_node ex_OpenDoor) = (ex_plan_open_node, None)"
    by (simp add: calc_heuristic_distance_for_node_def make_child_def is_goal_def
        ex_plan_goal_node_def ex_plan_open_node_def set_heuristic_distance_def
        get_unsatisfied_conditions_def differs_def ex_door_start_def condition_distance_def
        get_condition_value_def)
  show ?thesis
    by (simp add: expand_def f get_child_nodes_def c) (simp add: ex_plan_goal_node_def)
qed

lemma ex_expand_open:
  "expand ex_door_start [ex_WalkToDoor, ex_OpenDoor] ex_plan_open_node =
     (append_prev_node ex_plan_open_node ex_plan_walk_node, Inr [ex_plan_walk_node])"
proof -
  have u: "get_unsatisfied_conditions [(''at_door'', IntV 1)] ex_door_start = [''at_door'']"
    by (simp add: get_unsatisfied_conditions_def differs_def ex_door_start_def)
  have f: "filter_matching_actions ex_door_start (worldstate ex_plan_open_node)
             [ex_WalkToDoor, ex_OpenDoor] = [ex_WalkToDoor]"
    by (simp add: filter_matching_actions_def ex_plan_open_node_def u)
  have c: "calc_heuristic_distance_for_node ex_door_start
             (make_child ex_door_start ex_plan_open_node ex_WalkToDoor) = (ex_plan_walk_node, None)"
    by (simp add: calc_heuristic_distance_for_node_def make_child_def is_goal_def
        ex_plan_open_node_def ex_plan_walk_node_def set_heuristic_distance_def
        get_unsatisfied_conditions_def)
  show ?thesis
    by (simp add: expand_def f get_child_nodes_def c) (simp add: ex_plan_open_node_def)
qed

lemma ex_matches:
  "\<not> matches ex_door_start (worldstate ex_plan_goal_node)"
  "\<not> matches ex_door_start (worldstate ex_plan_open_node)"
  "matches ex_door_start (worldstate ex_plan_walk_node)"
  by (simp_all add: matches_def ex_door_start_def ex_plan_goal_node_def ex_plan_open_node_def
      ex_plan_walk_node_def)

lemma ex_sorted:
  "sorted_by_total_cost [ex_plan_open_node] = Inr [ex_plan_open_node]"
  "sorted_by_total_cost [ex_plan_walk_node] = Inr [ex_plan_walk_node]"
  by (simp_all add: sorted_by_total_cost_def ex_plan_open_node_def ex_plan_walk_node_def)

lemma ex_plan:
  "plan () [ex_Teleport, ex_WalkToDoor, ex_OpenDoor] ex_door_start ex_door_open_goal =
     Inr (Some ex_plan_walk_node)"
proof -
  have 3: "plan_loop ex_door_start [ex_WalkToDoor, ex_OpenDoor] (Suc (Suc 0)) [ex_plan_walk_node] =
      Inr (Some ex_plan_walk_node)"
    by (subst plan_loop.simps) (simp add: plan_iteration_def ex_matches)
  have 2: "plan_loop ex_door_start [ex_WalkToDoor, ex_OpenDoor] (Suc 0) [ex_plan_open_node] =
      Inr (Some ex_plan_walk_node)"
    by (subst plan_loop.simps) (simp add: plan_iteration_def ex_matches ex_expand_open ex_sorted 3)
  have 1: "plan_loop ex_door_start [ex_WalkToDoor, ex_OpenDoor] 0 [ex_plan_goal_node] =
      Inr (Some ex_plan_walk_node)"
    by (subst plan_loop.simps) (simp add: plan_iteration_def ex_matches ex_expand_goal ex_sorted 2)
  show ?thesis
    by (simp add: plan_prepared ex_prepared ex_checked 1)
qed

lemma ex_search_states:
  "search_state ex_door_start [ex_WalkToDoor, ex_OpenDoor] ex_plan_goal_node 2
     [ex_plan_walk_node] [ex_plan_walk_node] [ex_plan_goal_node, ex_plan_open_node]"
proof -
  have "search_state ex_door_start [ex_WalkToDoor, ex_OpenDoor] ex_plan_goal_node (Suc 0)
     [ex_plan_open_node] (remove1 ex_plan_goal_node [ex_plan_goal_node] @ [ex_plan_open_node])
     ([] @ [ex_plan_goal_node])"
    by (rule search_step [OF search_init _ ex_matches(1) ex_expand_goal]) (simp_all add: ex_sorted)
  from search_step [OF this _ ex_matches(2) ex_expand_open, of "[ex_plan_walk_node]"]
  show ?thesis by (simp add: ex_sorted numeral_2_eq_2)
qed

lemma search_state_heuristics:
  assumes "search_state st chk g0 lc q arr pp" and "heuristic_distance g0 \<noteq> None"
  shows "\<forall>n\<in>set arr. heuristic_distance n \<noteq> None"
  using assms
proof (induction rule: search_state.induct)
  case search_init
  then show ?case by simp
next
  case (search_step lc cur rest arr pp expanded new q)
  from sorted_by_total_cost_Inr [OF search_step.hyps(5)]
  have "\<forall>n\<in>set new. heuristic_distance n \<noteq> None" by simp
  moreover have "set (remove1 cur arr) \<subseteq> set arr"
    by (rule set_remove1_subset)
  ultimately show ?case
    using search_step.IH search_step.prems by auto
qed

lemma total_cost_cost_key:
  "heuristic_distance n \<noteq> None \<Longrightarrow> total_cost n = Inr (cost_key n)"
  by (auto simp: cost_key_def total_cost_def)

subsection \<open>The node removed from the open collection\<close>

text \<open>
  Claim C2. At the head of every pass of the loop, the node that the pass removes (the
  first of the open collection) has a total cost that is at most the total cost of every
  open node, and it is the first node, in the order in which the open nodes were added,
  among the open nodes of that same total cost. The open collection holds exactly the
  nodes added and not yet removed.
\<close>

theorem removed_node_least_and_earliest:
  assumes "search_state st chk g0 lc (cur # rest) arrival popped"
    and "heuristic_distance g0 \<noteq> None"
  shows "(\<forall>n\<in>set arrival. \<exists>c d. total_cost cur = Inr c \<and> total_cost n = Inr d \<and> c \<le> d) \<and>
         mset (cur # rest) = mset arrival \<and>
         cur = hd (filter (\<lambda>n. total_cost n = total_cost cur) arrival)"
proof -
  from search_state_invariant [OF assms(1)]
  have s: "sort_key cost_key arrival = cur # rest" by simp
  note h = hd_sort_key_is_first_least [OF s]
  have m: "mset (cur # rest) = mset arrival"
    using s by (metis mset_sort)
  then have "set (cur # rest) = set arrival"
    by (rule mset_eq_setD)
  then have cur: "cur \<in> set arrival" by auto
  note heur = search_state_heuristics [OF assms]
  have tc: "total_cost n = Inr (cost_key n)" if "n \<in> set arrival" for n
    using that heur by (simp add: total_cost_cost_key)
  have "filter (\<lambda>n. total_cost n = total_cost cur) arrival
          = filter (\<lambda>n. cost_key n = cost_key cur) arrival"
    by (rule filter_cong) (simp_all add: tc cur)
  with h have e: "cur = hd (filter (\<lambda>n. total_cost n = total_cost cur) arrival)"
    by simp
  have "\<exists>c d. total_cost cur = Inr c \<and> total_cost n = Inr d \<and> c \<le> d" if "n \<in> set arrival" for n
    using that h tc cur by simp
  with m e show ?thesis by blast
qed

subsection \<open>The result without a plan\<close>

text \<open>
  Claim C4. \<^verbatim>\<open>plan\<close> returns \<^verbatim>\<open>None\<close> exactly when the loop reaches its head with an
  empty open collection or with 500 passes made. At every loop head the number of passes
  made is the number of nodes removed, it is at most 500, and the start worldstate
  matched none of the removed nodes. \<^verbatim>\<open>None\<close> is a returned value; the loop is a total
  function, so \<^verbatim>\<open>plan\<close> gives a result, a value or an exception, for every input.
\<close>

theorem no_plan_iff_drained_or_limit:
  "(plan w actions st g = Inr None \<longleftrightarrow>
      (\<exists>lc q arr pp.
         search_state st (checked_actions_of w actions) (prepared_goal_node st g) lc q arr pp \<and>
         (q = [] \<or> lc = 500))) \<and>
   (search_state st chk g0 lc q arr pp \<longrightarrow>
      lc = length pp \<and> lc \<le> 500 \<and> (\<forall>p\<in>set pp. \<not> matches st (worldstate p)))"
proof -
  let ?chk = "checked_actions_of w actions"
  let ?g0 = "prepared_goal_node st g :: 'a node"
  have "\<exists>lc q arr pp. search_state st ?chk ?g0 lc q arr pp \<and> (q = [] \<or> lc = 500)"
    if "plan w actions st g = Inr None"
  proof -
    from that have "plan_loop st ?chk 0 [?g0] = Inr None"
      by (simp add: plan_prepared)
    with plan_loop_result [OF search_init, of st ?chk ?g0] obtain lc q arr pp where
      s: "search_state st ?chk ?g0 lc q arr pp" and e: "q = [] \<or> 500 \<le> lc"
      by blast
    from search_state_invariant [OF s] have "lc \<le> 500" by simp
    with s e show ?thesis by (intro exI [of _ lc] exI [of _ q] exI [of _ arr] exI [of _ pp]) auto
  qed
  moreover have "plan w actions st g = Inr None"
    if "\<exists>lc q arr pp. search_state st ?chk ?g0 lc q arr pp \<and> (q = [] \<or> lc = 500)"
  proof -
    from that obtain lc q arr pp where
      s: "search_state st ?chk ?g0 lc q arr pp" and e: "q = [] \<or> lc = 500"
      by blast
    have "plan_loop st ?chk lc q = Inr None"
    proof (cases q)
      case Nil
      then show ?thesis by (simp add: plan_loop.simps [of st ?chk lc "[]"])
    next
      case (Cons a list)
      with e show ?thesis by (simp add: plan_loop.simps [of st ?chk 500 "a # list"])
    qed
    with search_state_plan_loop [OF s] show ?thesis
      by (simp add: plan_prepared)
  qed
  moreover have "search_state st chk g0 lc q arr pp \<longrightarrow>
      lc = length pp \<and> lc \<le> 500 \<and> (\<forall>p\<in>set pp. \<not> matches st (worldstate p))"
    using search_state_invariant [of st chk g0 lc q arr pp] by blast
  ultimately show ?thesis by blast
qed

subsection \<open>Actions with a failed freeform context\<close>

text \<open>
  Claim C7. In a run of \<^verbatim>\<open>plan\<close> in the world \<open>w\<close>, every node that is in the open
  collection or was removed from it, and so every node that an expansion created, and
  every node that \<^verbatim>\<open>plan\<close> returns, has no action or an action of the catalog whose
  freeform context holds in \<open>w\<close>; the same is true of the actions in its path list and of
  the nodes in its path list. An action whose context check fails is in none of them.
\<close>

theorem unchecked_action_never_used:
  assumes "(search_state st (checked_actions_of w actions) (prepared_goal_node st g) lc q arr pp \<and>
             n \<in> set arr \<union> set pp) \<or>
           plan w actions st g = Inr (Some n)"
  shows "(\<forall>a. action n = Some a \<longrightarrow> a \<in> set actions \<and> check_freeform_context a w) \<and>
         (\<forall>a\<in>set (parent_actions_path_list n). a \<in> set actions \<and> check_freeform_context a w) \<and>
         (\<forall>m\<in>set (parent_nodes_path_list n). \<forall>a. action m = Some a \<longrightarrow>
             a \<in> set actions \<and> check_freeform_context a w)"
proof -
  let ?chk = "checked_actions_of w actions"
  let ?g0 = "prepared_goal_node st g :: 'a node"
  have A: "a \<in> set actions \<and> check_freeform_context a w" if "a \<in> set ?chk" for a
    using that by (simp add: checked_actions_of_def)
  have g: "chain (set ?chk) ?g0" "heuristic_distance ?g0 \<noteq> None"
    by (simp_all add: prepared_goal_node_chain)
  have "\<exists>lc q arr pp. search_state st ?chk ?g0 lc q arr pp \<and> n \<in> set arr \<union> set pp"
  proof (cases "plan w actions st g = Inr (Some n)")
    case True
    then have "plan_loop st ?chk 0 [?g0] = Inr (Some n)"
      by (simp add: plan_prepared)
    with plan_loop_result [OF search_init, of st ?chk ?g0 n] obtain lc rest arr pp where
      s: "search_state st ?chk ?g0 lc (n # rest) arr pp"
      by blast
    from search_state_invariant [OF s] have "set (n # rest) = set arr"
      by (metis set_sort)
    then have "n \<in> set arr \<union> set pp" by auto
    with s show ?thesis by blast
  next
    case False
    with assms show ?thesis by blast
  qed
  then obtain lc q arr pp where
    s: "search_state st ?chk ?g0 lc q arr pp" and n: "n \<in> set arr \<union> set pp"
    by blast
  from search_state_chain [OF s g] n have "chain (set ?chk) n" by blast
  from chain_actions [OF this] have
    c: "\<forall>a. action n = Some a \<longrightarrow> a \<in> set ?chk" "set (parent_actions_path_list n) \<subseteq> set ?chk"
      "\<forall>m\<in>set (parent_nodes_path_list n). chain (set ?chk) m"
    by simp_all
  have "\<forall>a. action m = Some a \<longrightarrow> a \<in> set ?chk" if "m \<in> set (parent_nodes_path_list n)" for m
    using chain_actions [of "set ?chk" m] c(3) that by blast
  with c(1,2) A show ?thesis by blast
qed

subsection \<open>The path cost\<close>

text \<open>
  Claim C9. \<^verbatim>\<open>path_cost\<close> of a node is its own \<^verbatim>\<open>cost\<close> plus the sum of \<^verbatim>\<open>cost\<close> over
  the nodes of its path list, where \<^verbatim>\<open>cost\<close> of a node is 0 for the goal node and the cost
  of its action otherwise. For the node that \<^verbatim>\<open>plan\<close> returns, the walk along the parent
  links ends at the goal node and \<^verbatim>\<open>path_cost\<close> is the sum of the costs of the actions of
  the nodes on that walk.
\<close>

theorem path_cost_is_chain_cost:
  "path_cost n = node_cost n + sum_list (map node_cost (parent_nodes_path_list n)) \<and>
   (is_goal n \<longrightarrow> node_cost n = 0) \<and>
   (\<forall>a. action n = Some a \<longrightarrow> node_cost n = cost a) \<and>
   (plan w actions st g = Inr (Some n) \<longrightarrow>
      (\<exists>nodes. forward_walk n = Inr nodes \<and> is_goal (last nodes) \<and>
         path_cost n = sum_list (map cost (List.map_filter action nodes))))"
proof -
  let ?chk = "checked_actions_of w actions"
  let ?g0 = "prepared_goal_node st g :: 'a node"
  have "\<exists>nodes. forward_walk n = Inr nodes \<and> is_goal (last nodes) \<and>
         path_cost n = sum_list (map cost (List.map_filter action nodes))"
    if "plan w actions st g = Inr (Some n)"
  proof -
    from that have "plan_loop st ?chk 0 [?g0] = Inr (Some n)"
      by (simp add: plan_prepared)
    with plan_loop_result [OF search_init, of st ?chk ?g0 n] obtain lc rest arr pp where
      s: "search_state st ?chk ?g0 lc (n # rest) arr pp"
      by blast
    from search_state_invariant [OF s] have "set (n # rest) = set arr"
      by (metis set_sort)
    then have "n \<in> set arr \<union> set pp" by auto
    with search_state_chain [OF s prepared_goal_node_chain] have "chain (set ?chk) n"
      by simp
    from chain_forward_walk [OF this] path_cost_walk [of n] show ?thesis
      by blast
  qed
  then show ?thesis
    by (simp add: path_cost_def node_cost_def is_goal_def)
qed

lemma ex_tie_expand:
  "expand ex_tie_start [ex_OpenDoor, ex_KickDoor] ex_plan_goal_node =
     (append_prev_node (append_prev_node ex_plan_goal_node ex_tie_open_node) ex_tie_kick_node,
      Inr [ex_tie_open_node, ex_tie_kick_node])"
proof -
  have u: "get_unsatisfied_conditions [(''door'', IntV 1)] ex_tie_start = [''door'']"
    by (simp add: get_unsatisfied_conditions_def differs_def ex_tie_start_def)
  have k: "has_satisfying_effects ex_KickDoor [(''door'', IntV 1)] ex_tie_start [''door'']"
    by (simp add: ex_KickDoor_def simple_action_def)
  have f: "filter_matching_actions ex_tie_start (worldstate ex_plan_goal_node)
             [ex_OpenDoor, ex_KickDoor] = [ex_OpenDoor, ex_KickDoor]"
    by (simp add: filter_matching_actions_def ex_plan_goal_node_def u k)
  have c1: "calc_heuristic_distance_for_node ex_tie_start
             (make_child ex_tie_start ex_plan_goal_node ex_OpenDoor) = (ex_tie_open_node, None)"
    by (simp add: calc_heuristic_distance_for_node_def make_child_def is_goal_def
        ex_plan_goal_node_def ex_tie_open_node_def set_heuristic_distance_def
        get_unsatisfied_conditions_def differs_def ex_tie_start_def condition_distance_def
        get_condition_value_def)
  have c2: "calc_heuristic_distance_for_node ex_tie_start
             (make_child ex_tie_start (append_prev_node ex_plan_goal_node ex_tie_open_node)
                ex_KickDoor) = (ex_tie_kick_node, None)"
    by (simp add: calc_heuristic_distance_for_node_def make_child_def is_goal_def
        ex_plan_goal_node_def ex_tie_kick_node_def set_heuristic_distance_def
        get_unsatisfied_conditions_def differs_def ex_tie_start_def condition_distance_def
        get_condition_value_def ex_KickDoor_def simple_action_def append_prev_node_def)
  show ?thesis
    by (simp add: expand_def f get_child_nodes_def c1 c2) (simp add: ex_plan_goal_node_def)
qed

lemma ex_tie_cost_key: "cost_key ex_tie_open_node = 2" "cost_key ex_tie_kick_node = 2"
  by (simp_all add: cost_key_def total_cost_def path_cost_def node_cost_def ex_tie_open_node_def
      ex_tie_kick_node_def ex_plan_goal_node_def ex_KickDoor_def simple_action_def
      append_prev_node_def)

lemma ex_tie_search_state:
  "search_state ex_tie_start [ex_OpenDoor, ex_KickDoor] ex_plan_goal_node (Suc 0)
     (ex_tie_open_node # [ex_tie_kick_node]) [ex_tie_open_node, ex_tie_kick_node]
     [ex_plan_goal_node]"
proof -
  have m: "\<not> matches ex_tie_start (worldstate ex_plan_goal_node)"
    by (simp add: matches_def ex_tie_start_def ex_plan_goal_node_def)
  have s: "sorted_by_total_cost ([] @ [ex_tie_open_node, ex_tie_kick_node]) =
      Inr [ex_tie_open_node, ex_tie_kick_node]"
    by (simp add: sorted_by_total_cost_def ex_tie_cost_key)
      (simp add: ex_tie_open_node_def ex_tie_kick_node_def)
  from search_step [OF search_init _ m ex_tie_expand s] show ?thesis
    by simp
qed

theorem removed_node_least_and_earliest_witness:
  "search_state ex_tie_start [ex_OpenDoor, ex_KickDoor] ex_plan_goal_node (Suc 0)
     (ex_tie_open_node # [ex_tie_kick_node]) [ex_tie_open_node, ex_tie_kick_node]
     [ex_plan_goal_node] \<and>
   heuristic_distance ex_plan_goal_node \<noteq> None \<and>
   total_cost ex_tie_open_node = Inr 2 \<and> total_cost ex_tie_kick_node = Inr 2 \<and>
   ex_tie_open_node =
     hd (filter (\<lambda>n. total_cost n = total_cost ex_tie_open_node)
           [ex_tie_open_node, ex_tie_kick_node])"
proof -
  have h: "heuristic_distance ex_plan_goal_node \<noteq> None"
    by (simp add: ex_plan_goal_node_def)
  have t: "total_cost ex_tie_open_node = Inr 2" "total_cost ex_tie_kick_node = Inr 2"
    using ex_tie_cost_key
    by (simp_all add: cost_key_def total_cost_def ex_tie_open_node_def ex_tie_kick_node_def)
  from removed_node_least_and_earliest [OF ex_tie_search_state h] ex_tie_search_state h t
  show ?thesis by simp
qed

lemma ex_no_plan_state:
  "search_state ex_door_start [ex_WalkToDoor] ex_plan_goal_node (Suc 0) [] [] [ex_plan_goal_node]"
proof -
  have u: "get_unsatisfied_conditions [(''door'', IntV 1)] ex_door_start = [''door'']"
    by (simp add: get_unsatisfied_conditions_def differs_def ex_door_start_def)
  have f: "filter_matching_actions ex_door_start (worldstate ex_plan_goal_node)
             [ex_WalkToDoor] = []"
    by (simp add: filter_matching_actions_def ex_plan_goal_node_def u)
  have e: "expand ex_door_start [ex_WalkToDoor] ex_plan_goal_node = (ex_plan_goal_node, Inr [])"
    by (simp add: expand_def f get_child_nodes_def) (simp add: ex_plan_goal_node_def)
  have s: "sorted_by_total_cost ([] @ []) = Inr ([] :: unit node list)"
    by (simp add: sorted_by_total_cost_def)
  from search_step [OF search_init _ ex_matches(1) e s] show ?thesis
    by simp
qed

theorem no_plan_iff_drained_or_limit_witness:
  "plan () [ex_Teleport, ex_WalkToDoor] ex_door_start ex_door_open_goal = Inr None \<and>
   search_state ex_door_start (checked_actions_of () [ex_Teleport, ex_WalkToDoor])
     (prepared_goal_node ex_door_start ex_door_open_goal) (Suc 0) [] [] [ex_plan_goal_node] \<and>
   Suc 0 = length [ex_plan_goal_node] \<and>
   \<not> matches ex_door_start (worldstate ex_plan_goal_node)"
proof -
  have c: "checked_actions_of () [ex_Teleport, ex_WalkToDoor] = [ex_WalkToDoor]"
    by (simp add: checked_actions_of_def)
  have s: "search_state ex_door_start (checked_actions_of () [ex_Teleport, ex_WalkToDoor])
     (prepared_goal_node ex_door_start ex_door_open_goal) (Suc 0) [] [] [ex_plan_goal_node]"
    using ex_no_plan_state by (simp add: c ex_prepared)
  from no_plan_iff_drained_or_limit [of "()" "[ex_Teleport, ex_WalkToDoor]" ex_door_start
      ex_door_open_goal "checked_actions_of () [ex_Teleport, ex_WalkToDoor]"
      "prepared_goal_node ex_door_start ex_door_open_goal" "Suc 0" "[]" "[]" "[ex_plan_goal_node]"]
    s
  show ?thesis by auto
qed

theorem unchecked_action_never_used_witness:
  "plan () [ex_Teleport, ex_WalkToDoor, ex_OpenDoor] ex_door_start ex_door_open_goal =
     Inr (Some ex_plan_walk_node) \<and>
   \<not> check_freeform_context ex_Teleport () \<and>
   has_satisfying_effects ex_Teleport [(''door'', IntV 1)] ex_door_start [''door''] \<and>
   action ex_plan_walk_node \<noteq> Some ex_Teleport \<and>
   ex_Teleport \<notin> set (parent_actions_path_list ex_plan_walk_node) \<and>
   action ex_plan_open_node \<noteq> Some ex_Teleport"
proof -
  have t: "\<not> check_freeform_context ex_Teleport ()"
    "has_satisfying_effects ex_Teleport [(''door'', IntV 1)] ex_door_start [''door'']"
    by (simp_all add: ex_Teleport_def simple_action_def)
  have p: "ex_plan_open_node \<in> set (parent_nodes_path_list ex_plan_walk_node)"
    by (simp add: ex_plan_walk_node_def)
  from unchecked_action_never_used [OF disjI2 [OF ex_plan]] t p ex_plan
  show ?thesis by blast
qed

theorem path_cost_is_chain_cost_witness:
  "plan () [ex_Teleport, ex_WalkToDoor, ex_OpenDoor] ex_door_start ex_door_open_goal =
     Inr (Some ex_plan_walk_node) \<and>
   forward_walk ex_plan_walk_node =
     Inr [ex_plan_walk_node, ex_plan_open_node, ex_plan_goal_node] \<and>
   List.map_filter action [ex_plan_walk_node, ex_plan_open_node, ex_plan_goal_node] =
     [ex_WalkToDoor, ex_OpenDoor] \<and>
   path_cost ex_plan_walk_node = 2"
proof -
  have g: "forward_walk ex_plan_goal_node = Inr [ex_plan_goal_node]"
    by (subst forward_walk.simps) (simp add: is_goal_def ex_plan_goal_node_def)
  have "is_goal ex_plan_open_node = False" "parent_node ex_plan_open_node = Inr ex_plan_goal_node"
    by (simp_all add: is_goal_def parent_node_def ex_plan_open_node_def)
  then have o: "forward_walk ex_plan_open_node = Inr [ex_plan_open_node, ex_plan_goal_node]"
    by (subst forward_walk.simps) (simp add: g)
  have "is_goal ex_plan_walk_node = False" "parent_node ex_plan_walk_node = Inr ex_plan_open_node"
    by (simp_all add: is_goal_def parent_node_def ex_plan_walk_node_def)
  then have w: "forward_walk ex_plan_walk_node =
      Inr [ex_plan_walk_node, ex_plan_open_node, ex_plan_goal_node]"
    by (subst forward_walk.simps) (simp add: o)
  have a: "List.map_filter action [ex_plan_walk_node, ex_plan_open_node, ex_plan_goal_node] =
     [ex_WalkToDoor, ex_OpenDoor]"
    by (simp add: List.map_filter_simps ex_plan_walk_node_def ex_plan_open_node_def
        ex_plan_goal_node_def)
  from path_cost_is_chain_cost [of ex_plan_walk_node "()" "[ex_Teleport, ex_WalkToDoor, ex_OpenDoor]"
      ex_door_start ex_door_open_goal] ex_plan w a
  show ?thesis by simp
qed

subsection \<open>Search trees\<close>

lemma search_tree_positive: "search_tree st chk n k \<Longrightarrow> 0 < k"
  by (cases rule: search_tree.cases) auto

lemma search_forest_Cons:
  assumes "search_forest st chk (n # ns) k"
  obtains k1 k2 where "search_tree st chk n k1" "search_forest st chk ns k2" "k = k1 + k2"
  using assms by (cases rule: search_forest.cases) auto

lemma search_forest_append:
  "search_forest st chk xs k \<Longrightarrow> search_forest st chk ys m \<Longrightarrow>
     search_forest st chk (xs @ ys) (k + m)"
proof (induction xs arbitrary: k)
  case Nil
  then have "k = 0" by (cases rule: search_forest.cases) simp
  with Nil show ?case by simp
next
  case (Cons x xs)
  from Cons.prems(1) obtain k1 k2 where
    t: "search_tree st chk x k1" and f: "search_forest st chk xs k2" and k: "k = k1 + k2"
    by (rule search_forest_Cons)
  from forest_node [OF t Cons.IH [OF f Cons.prems(2)]] k show ?case
    by (simp add: add.assoc)
qed

lemma search_forest_move:
  "search_forest st chk (xs @ y # ys) k \<Longrightarrow> search_forest st chk (y # xs @ ys) k"
proof (induction xs arbitrary: k)
  case Nil
  then show ?case by simp
next
  case (Cons x xs)
  from Cons.prems have "search_forest st chk (x # xs @ y # ys) k" by simp
  then obtain k1 k2 where
    t: "search_tree st chk x k1" and f: "search_forest st chk (xs @ y # ys) k2"
    and k: "k = k1 + k2"
    by (rule search_forest_Cons)
  from Cons.IH [OF f] obtain k3 k4 where
    ty: "search_tree st chk y k3" and f2: "search_forest st chk (xs @ ys) k4"
    and k2: "k2 = k3 + k4"
    by (rule search_forest_Cons)
  from forest_node [OF ty forest_node [OF t f2]] k k2 show ?case
    by (simp add: add.left_commute)
qed

lemma search_forest_mset:
  "search_forest st chk xs k \<Longrightarrow> mset ys = mset xs \<Longrightarrow> search_forest st chk ys k"
proof (induction ys arbitrary: xs k)
  case Nil
  then show ?case by simp
next
  case (Cons y ys)
  from Cons.prems(2) have "y \<in> set xs"
    by (metis list.set_intros(1) mset_eq_setD)
  then obtain as bs where xs: "xs = as @ y # bs"
    by (auto simp: in_set_conv_decomp)
  with Cons.prems(1) have "search_forest st chk (y # as @ bs) k"
    by (simp add: search_forest_move)
  then obtain k1 k2 where
    t: "search_tree st chk y k1" and f: "search_forest st chk (as @ bs) k2" and k: "k = k1 + k2"
    by (rule search_forest_Cons)
  from Cons.prems(2) xs have "mset ys = mset (as @ bs)" by simp
  from forest_node [OF t Cons.IH [OF f this]] k show ?case by simp
qed

lemma expand_heuristics:
  assumes "expand st chk cur = (cur', Inr new)"
  shows "\<forall>c\<in>set new. heuristic_distance c \<noteq> None"
proof -
  have l: "get_child_nodes_loop st self as = (self', None) \<Longrightarrow>
      (\<forall>c\<in>set (possible_prev_nodes self). heuristic_distance c \<noteq> None) \<Longrightarrow>
      (\<forall>c\<in>set (possible_prev_nodes self'). heuristic_distance c \<noteq> None)" for self self' as
  proof (induction as arbitrary: self)
    case Nil
    then show ?case by simp
  next
    case (Cons a as)
    obtain child e where
      c0: "calc_heuristic_distance_for_node st (make_child st self a) = (child, e)"
      by (cases "calc_heuristic_distance_for_node st (make_child st self a)")
    with Cons.prems(1) have e: "e = None"
      by (cases e) simp_all
    with c0 Cons.prems(1) have
      l: "get_child_nodes_loop st (append_prev_node self child) as = (self', None)"
      by simp
    from c0 e have "heuristic_distance child \<noteq> None"
      by (simp add: calc_heuristic_ok_cases(7))
    with Cons.prems(2) have
      "\<forall>c\<in>set (possible_prev_nodes (append_prev_node self child)). heuristic_distance c \<noteq> None"
      by simp
    from Cons.IH [OF l this] show ?case .
  qed
  note e = expand_loop [OF assms]
  from l [OF e(2)] e(1,3) show ?thesis by simp
qed

lemma plan_loop_finds:
  assumes "search_forest st chk q k" and "lc + k \<le> 500"
    and "\<exists>n\<in>set q. plan_exists st chk n" and "\<forall>n\<in>set q. heuristic_distance n \<noteq> None"
  shows "\<exists>n. plan_loop st chk lc q = Inr (Some n) \<and> matches st (worldstate n)"
  using assms
proof (induction k arbitrary: lc q rule: less_induct)
  case (less k)
  from less.prems(3) obtain cur rest where q: "q = cur # rest"
    by (cases q) auto
  from less.prems(1) [unfolded q] obtain k1 k2 where
    t: "search_tree st chk cur k1" and f: "search_forest st chk rest k2" and k: "k = k1 + k2"
    by (rule search_forest_Cons)
  from search_tree_positive [OF t] k less.prems(2) have lim: "\<not> 500 < lc + 1"
    by simp
  show ?case
  proof (cases "matches st (worldstate cur)")
    case True
    with lim q show ?thesis
      by (simp add: plan_loop.simps [of st chk lc "cur # rest"] plan_iteration_def)
  next
    case False
    with t obtain expanded new k' where
      e: "expand st chk cur = (expanded, Inr new)" and fn: "search_forest st chk new k'"
      and k1: "k1 = Suc k'"
      by (cases rule: search_tree.cases) auto
    let ?q = "sort_key cost_key (rest @ new)"
    from expand_heuristics [OF e] less.prems(4) q
    have h: "\<forall>n\<in>set (rest @ new). heuristic_distance n \<noteq> None"
      by auto
    then have s: "sorted_by_total_cost (rest @ new) = Inr ?q"
      by (simp add: sorted_by_total_cost_def list_all_iff)
    have step: "plan_loop st chk lc q = plan_loop st chk (lc + 1) ?q"
      using q lim False e s
      by (simp add: plan_loop.simps [of st chk lc "cur # rest"] plan_iteration_def)
    have "search_forest st chk (rest @ new) (k2 + k')"
      using f fn by (rule search_forest_append)
    then have f': "search_forest st chk ?q (k2 + k')"
      by (rule search_forest_mset) simp
    have "\<exists>n\<in>set (rest @ new). plan_exists st chk n"
    proof (cases "plan_exists st chk cur")
      case True
      then obtain c where "c \<in> set new" "plan_exists st chk c"
        using False e by (cases rule: plan_exists.cases) auto
      then show ?thesis by auto
    next
      case False
      with less.prems(3) q show ?thesis by auto
    qed
    then have p': "\<exists>n\<in>set ?q. plan_exists st chk n" by simp
    from h have h': "\<forall>n\<in>set ?q. heuristic_distance n \<noteq> None" by simp
    have "k2 + k' < k" "lc + 1 + (k2 + k') \<le> 500"
      using k k1 less.prems(2) by simp_all
    from less.IH [OF this(1) f' this(2) p' h'] step show ?thesis
      by simp
  qed
qed

subsection \<open>Solvable problems\<close>

text \<open>
  Claim C1, as the code has it. The loop limit counts the nodes removed from the open
  collection, not the length of a chain of actions. When the search tree below the goal
  node is built without an exception, has at most 500 nodes and holds a node that the
  start worldstate matches, \<^verbatim>\<open>plan\<close> returns a node; the start worldstate matches it,
  and the walk from it along the parent links ends at a goal node.
\<close>

theorem plan_finds_goal_chain:
  assumes "search_tree st (checked_actions_of w actions) (prepared_goal_node st g) k"
    and "k \<le> 500"
    and "plan_exists st (checked_actions_of w actions) (prepared_goal_node st g)"
  shows "\<exists>n nodes. plan w actions st g = Inr (Some n) \<and> matches st (worldstate n) \<and>
           forward_walk n = Inr nodes \<and> is_goal (last nodes)"
proof -
  let ?chk = "checked_actions_of w actions"
  let ?g0 = "prepared_goal_node st g :: 'a node"
  from forest_node [OF assms(1) forest_empty] have "search_forest st ?chk [?g0] k"
    by simp
  from plan_loop_finds [OF this, of 0] assms(2,3) obtain n where
    n: "plan_loop st ?chk 0 [?g0] = Inr (Some n)" and m: "matches st (worldstate n)"
    by auto
  from plan_loop_result [OF search_init, of st ?chk ?g0 n] n obtain lc rest arr pp where
    s: "search_state st ?chk ?g0 lc (n # rest) arr pp"
    by blast
  from search_state_invariant [OF s] have "set (n # rest) = set arr"
    by (metis set_sort)
  then have "n \<in> set arr \<union> set pp" by auto
  with search_state_chain [OF s prepared_goal_node_chain] have "chain (set ?chk) n"
    by simp
  from chain_forward_walk [OF this] n m show ?thesis
    by (simp add: plan_prepared)
qed

theorem plan_finds_goal_chain_witness:
  "search_tree ex_door_start (checked_actions_of () [ex_Teleport, ex_WalkToDoor, ex_OpenDoor])
     (prepared_goal_node ex_door_start ex_door_open_goal) 3 \<and>
   (3::nat) \<le> 500 \<and>
   plan_exists ex_door_start (checked_actions_of () [ex_Teleport, ex_WalkToDoor, ex_OpenDoor])
     (prepared_goal_node ex_door_start ex_door_open_goal) \<and>
   plan () [ex_Teleport, ex_WalkToDoor, ex_OpenDoor] ex_door_start ex_door_open_goal =
     Inr (Some ex_plan_walk_node) \<and>
   matches ex_door_start (worldstate ex_plan_walk_node)"
proof -
  let ?chk = "[ex_WalkToDoor, ex_OpenDoor]"
  have w: "search_tree ex_door_start ?chk ex_plan_walk_node 1"
    by (rule tree_match) (rule ex_matches(3))
  from forest_node [OF w forest_empty]
  have "search_forest ex_door_start ?chk [ex_plan_walk_node] 1" by simp
  from tree_expand [OF ex_matches(2) ex_expand_open this]
  have o: "search_tree ex_door_start ?chk ex_plan_open_node 2" by (simp add: numeral_2_eq_2)
  from forest_node [OF o forest_empty]
  have "search_forest ex_door_start ?chk [ex_plan_open_node] 2" by simp
  from tree_expand [OF ex_matches(1) ex_expand_goal this]
  have g: "search_tree ex_door_start ?chk ex_plan_goal_node 3" by (simp add: numeral_3_eq_3)
  have "plan_exists ex_door_start ?chk ex_plan_walk_node"
    by (rule plan_here) (rule ex_matches(3))
  then have "plan_exists ex_door_start ?chk ex_plan_open_node"
    by (rule plan_below [OF ex_matches(2) ex_expand_open, rotated]) simp
  then have p: "plan_exists ex_door_start ?chk ex_plan_goal_node"
    by (rule plan_below [OF ex_matches(1) ex_expand_goal, rotated]) simp
  have t: "search_tree ex_door_start (checked_actions_of () [ex_Teleport, ex_WalkToDoor, ex_OpenDoor])
     (prepared_goal_node ex_door_start ex_door_open_goal) 3"
    using g by (simp add: ex_checked ex_prepared)
  have l: "(3::nat) \<le> 500" by simp
  have e: "plan_exists ex_door_start (checked_actions_of () [ex_Teleport, ex_WalkToDoor, ex_OpenDoor])
     (prepared_goal_node ex_door_start ex_door_open_goal)"
    using p by (simp add: ex_checked ex_prepared)
  from plan_finds_goal_chain [OF t l e] t e ex_plan ex_matches(3)
  show ?thesis by simp
qed

subsection \<open>A solvable problem without a plan\<close>

lemma plan_loop_drain:
  assumes "\<forall>d\<in>set ds. \<not> matches st (worldstate d) \<and> (\<exists>d'. expand st chk d = (d', Inr []))"
    and "sorted (map cost_key (ds @ r))"
    and "\<forall>n\<in>set (ds @ r). heuristic_distance n \<noteq> None"
    and "500 \<le> lc + length ds"
  shows "plan_loop st chk lc (ds @ r) = Inr None"
  using assms
proof (induction ds arbitrary: lc)
  case Nil
  then show ?case
    by (cases r) (simp_all add: plan_loop.simps [of st chk lc])
next
  case (Cons d ds)
  show ?case
  proof (cases "500 < lc + 1")
    case True
    then show ?thesis
      by (simp add: plan_loop.simps [of st chk lc "d # ds @ r"])
  next
    case False
    from Cons.prems(1) obtain d' where
      m: "\<not> matches st (worldstate d)" and e: "expand st chk d = (d', Inr [])"
      by auto
    from Cons.prems(2) have srt: "sorted (map cost_key (ds @ r))"
      by simp
    from Cons.prems(3) have h: "\<forall>n\<in>set (ds @ r). heuristic_distance n \<noteq> None"
      by simp
    have s: "sorted_by_total_cost ((ds @ r) @ []) = Inr (ds @ r)"
      using h srt by (simp add: sorted_by_total_cost_def list_all_iff sort_key_id_if_sorted)
    have "plan_loop st chk lc ((d # ds) @ r) = plan_loop st chk (lc + 1) (ds @ r)"
      using False m e s
      by (simp add: plan_loop.simps [of st chk lc "d # ds @ r"] plan_iteration_def)
    moreover have "plan_loop st chk (lc + 1) (ds @ r) = Inr None"
      using Cons.prems(1,4) srt h by (intro Cons.IH) simp_all
    ultimately show ?thesis by simp
  qed
qed

lemma ex_blocked_prepared:
  "prepared_goal_node ex_blocked_start ex_door_open_goal = ex_plan_goal_node"
  by (simp add: prepared_goal_node_def calc_heuristic_distance_for_node_def goal_node_def
      is_goal_def ex_blocked_start_def ex_door_open_goal_def ex_plan_goal_node_def
      get_unsatisfied_conditions_def differs_def set_heuristic_distance_def)

lemma ex_detours_checked: "checked_actions_of () ex_detours = ex_detours"
  by (simp add: checked_actions_of_def ex_detours_def ex_Detour_def ex_Breach_def
      simple_action_def filter_id_conv)

lemma ex_detour_sel [simp]:
  "cost (ex_Detour i) = 1" "cost ex_Breach = 1000"
  "apply_preconditions (ex_Detour i) [(''door'', IntV 1)] st = [(''key'', IntV (int i))]"
  "apply_preconditions ex_Breach [(''door'', IntV 1)] st = []"
  "has_satisfying_effects (ex_Detour i) [(''door'', IntV 1)] st [''door'']"
  "has_satisfying_effects ex_Breach [(''door'', IntV 1)] st [''door'']"
  "\<not> has_satisfying_effects (ex_Detour i) ws st [''key'']"
  "\<not> has_satisfying_effects ex_Breach ws st [''key'']"
  by (simp_all add: ex_Detour_def ex_Breach_def simple_action_def)

lemma ex_blocked_unsatisfied:
  "get_unsatisfied_conditions [(''door'', IntV 1)] ex_blocked_start = [''door'']"
  "1 \<le> i \<Longrightarrow> get_unsatisfied_conditions [(''key'', IntV (int i))] ex_blocked_start = [''key'']"
  "get_unsatisfied_conditions [] ex_blocked_start = []"
  by (simp_all add: get_unsatisfied_conditions_def differs_def ex_blocked_start_def)

lemma ex_detour_child:
  assumes "worldstate self = [(''door'', IntV 1)]" and "parent_nodes_path_list self = []"
    and "1 \<le> i"
  shows "calc_heuristic_distance_for_node ex_blocked_start
           (make_child ex_blocked_start self (ex_Detour i)) =
         (set_heuristic_distance (make_child ex_blocked_start self (ex_Detour i)) 1, None)"
  using assms
  by (simp add: calc_heuristic_distance_for_node_def is_goal_def ex_blocked_unsatisfied
      condition_distance_def get_condition_value_def)

lemma ex_breach_child:
  assumes "worldstate self = [(''door'', IntV 1)]" and "parent_nodes_path_list self = []"
  shows "calc_heuristic_distance_for_node ex_blocked_start
           (make_child ex_blocked_start self ex_Breach) =
         (set_heuristic_distance (make_child ex_blocked_start self ex_Breach) 0, None)"
  using assms
  by (simp add: calc_heuristic_distance_for_node_def is_goal_def ex_blocked_unsatisfied)

lemma ex_detours_loop:
  assumes "worldstate self = [(''door'', IntV 1)]" and "parent_nodes_path_list self = []"
    and "action self = None" and "\<forall>i\<in>set is. 1 \<le> i"
  shows "\<exists>self' ds b.
      get_child_nodes_loop ex_blocked_start self (map ex_Detour is @ [ex_Breach]) = (self', None) \<and>
      possible_prev_nodes self' = possible_prev_nodes self @ ds @ [b] \<and>
      length ds = length is \<and>
      (\<forall>d\<in>set ds. possible_prev_nodes d = [] \<and> heuristic_distance d = Some 1 \<and>
         path_cost d = 1 \<and> (\<exists>i. 1 \<le> i \<and> worldstate d = [(''key'', IntV (int i))])) \<and>
      heuristic_distance b = Some 0 \<and> path_cost b = 1000 \<and> worldstate b = []"
  using assms
proof (induction "is" arbitrary: self)
  case Nil
  let ?b = "set_heuristic_distance (make_child ex_blocked_start self ex_Breach) 0"
  have "get_child_nodes_loop ex_blocked_start self (map ex_Detour [] @ [ex_Breach]) =
      (append_prev_node self ?b, None)"
    using Nil.prems by (simp add: ex_breach_child)
  moreover have "path_cost ?b = 1000" "worldstate ?b = []"
    using Nil.prems by (simp_all add: path_cost_def node_cost_def)
  ultimately show ?case
    by (intro exI [of _ "append_prev_node self ?b"] exI [of _ "[]"] exI [of _ ?b]) simp
next
  case (Cons i "is")
  let ?d = "set_heuristic_distance (make_child ex_blocked_start self (ex_Detour i)) 1"
  let ?self = "append_prev_node self ?d"
  from Cons.prems have i: "1 \<le> i" and rest: "\<forall>i\<in>set is. 1 \<le> i" by simp_all
  have step: "get_child_nodes_loop ex_blocked_start self (map ex_Detour (i # is) @ [ex_Breach]) =
      get_child_nodes_loop ex_blocked_start ?self (map ex_Detour is @ [ex_Breach])"
    using Cons.prems(1,2) i by (simp add: ex_detour_child)
  have "worldstate ?self = [(''door'', IntV 1)]" "parent_nodes_path_list ?self = []"
    "action ?self = None"
    using Cons.prems by simp_all
  from Cons.IH [OF this rest] obtain self' ds b where
    l: "get_child_nodes_loop ex_blocked_start ?self (map ex_Detour is @ [ex_Breach]) = (self', None)"
    and p: "possible_prev_nodes self' = possible_prev_nodes ?self @ ds @ [b]"
    and n: "length ds = length is"
    and d: "\<forall>d\<in>set ds. possible_prev_nodes d = [] \<and> heuristic_distance d = Some 1 \<and>
         path_cost d = 1 \<and> (\<exists>i. 1 \<le> i \<and> worldstate d = [(''key'', IntV (int i))])"
    and b: "heuristic_distance b = Some 0 \<and> path_cost b = 1000 \<and> worldstate b = []"
    by blast
  have d0: "possible_prev_nodes ?d = [] \<and> heuristic_distance ?d = Some 1 \<and>
         path_cost ?d = 1 \<and> (\<exists>j. 1 \<le> j \<and> worldstate ?d = [(''key'', IntV (int j))])"
    using Cons.prems(1-3) i by (auto simp: path_cost_def node_cost_def)
  have "possible_prev_nodes self' = possible_prev_nodes self @ (?d # ds) @ [b]"
    using p by simp
  moreover have "length (?d # ds) = length (i # is)"
    using n by simp
  moreover have "\<forall>d\<in>set (?d # ds). possible_prev_nodes d = [] \<and> heuristic_distance d = Some 1 \<and>
         path_cost d = 1 \<and> (\<exists>i. 1 \<le> i \<and> worldstate d = [(''key'', IntV (int i))])"
    using d d0 by simp
  ultimately show ?case
    using step l b by (intro exI [of _ self'] exI [of _ "?d # ds"] exI [of _ b]) simp
qed

lemma sorted_map_const: "\<forall>x\<in>set xs. f x = c \<Longrightarrow> sorted (map f xs)"
  by (induction xs) simp_all

lemma ex_detours_filter:
  "filter_matching_actions ex_blocked_start [(''door'', IntV 1)] ex_detours = ex_detours"
  "1 \<le> i \<Longrightarrow> filter_matching_actions ex_blocked_start [(''key'', IntV (int i))] ex_detours = []"
  by (auto simp: filter_matching_actions_def ex_blocked_unsatisfied ex_detours_def
      filter_id_conv filter_empty_conv)

lemma ex_detours_expand:
  "\<exists>g' ds b.
      expand ex_blocked_start ex_detours ex_plan_goal_node = (g', Inr (ds @ [b])) \<and>
      length ds = 600 \<and>
      (\<forall>d\<in>set ds. possible_prev_nodes d = [] \<and> heuristic_distance d = Some 1 \<and>
         path_cost d = 1 \<and> (\<exists>i. 1 \<le> i \<and> worldstate d = [(''key'', IntV (int i))])) \<and>
      heuristic_distance b = Some 0 \<and> path_cost b = 1000 \<and> worldstate b = []"
proof -
  have g: "worldstate ex_plan_goal_node = [(''door'', IntV 1)]"
    "parent_nodes_path_list ex_plan_goal_node = []" "action ex_plan_goal_node = None"
    "possible_prev_nodes ex_plan_goal_node = []"
    by (simp_all add: ex_plan_goal_node_def)
  have "\<forall>i\<in>set [1..<601]. 1 \<le> i" by simp
  from ex_detours_loop [OF g(1-3) this] obtain self' ds b where
    l: "get_child_nodes_loop ex_blocked_start ex_plan_goal_node ex_detours = (self', None)"
    and p: "possible_prev_nodes self' = ds @ [b]"
    and r: "length ds = 600"
      "\<forall>d\<in>set ds. possible_prev_nodes d = [] \<and> heuristic_distance d = Some 1 \<and>
         path_cost d = 1 \<and> (\<exists>i. 1 \<le> i \<and> worldstate d = [(''key'', IntV (int i))])"
      "heuristic_distance b = Some 0 \<and> path_cost b = 1000 \<and> worldstate b = []"
    by (auto simp: g(4) ex_detours_def)
  have "expand ex_blocked_start ex_detours ex_plan_goal_node = (self', Inr (ds @ [b]))"
    by (simp add: expand_def g ex_detours_filter get_child_nodes_def l p)
  with r show ?thesis by blast
qed

lemma ex_dead_end:
  assumes "worldstate d = [(''key'', IntV (int i))]" and "1 \<le> i"
    and "possible_prev_nodes d = []"
  shows "\<not> matches ex_blocked_start (worldstate d)"
    and "expand ex_blocked_start ex_detours d = (d, Inr [])"
proof -
  show "\<not> matches ex_blocked_start (worldstate d)"
    using assms(1,2) by (simp add: matches_def ex_blocked_start_def)
  show "expand ex_blocked_start ex_detours d = (d, Inr [])"
    using assms by (simp add: expand_def ex_detours_filter get_child_nodes_def)
qed

lemma ex_goal_not_matched: "\<not> matches ex_blocked_start (worldstate ex_plan_goal_node)"
  by (simp add: matches_def ex_blocked_start_def ex_plan_goal_node_def)

lemma ex_detours_no_plan:
  "plan_loop ex_blocked_start ex_detours 0 [ex_plan_goal_node] = Inr None"
proof -
  from ex_detours_expand obtain g' ds b where
    e: "expand ex_blocked_start ex_detours ex_plan_goal_node = (g', Inr (ds @ [b]))"
    and n: "length ds = 600"
    and d: "\<forall>d\<in>set ds. possible_prev_nodes d = [] \<and> heuristic_distance d = Some 1 \<and>
         path_cost d = 1 \<and> (\<exists>i. 1 \<le> i \<and> worldstate d = [(''key'', IntV (int i))])"
    and b: "heuristic_distance b = Some 0 \<and> path_cost b = 1000 \<and> worldstate b = []"
    by blast
  have kd: "\<forall>x\<in>set ds. cost_key x = 2"
    using d by (simp add: cost_key_def total_cost_def)
  have kb: "cost_key b = 1000"
    using b by (simp add: cost_key_def total_cost_def)
  have srt: "sorted (map cost_key (ds @ [b]))"
    using sorted_map_const [OF kd] kd kb by (simp add: sorted_append)
  have h: "\<forall>n\<in>set (ds @ [b]). heuristic_distance n \<noteq> None"
    using d b by auto
  have s: "sorted_by_total_cost ([] @ ds @ [b]) = Inr (ds @ [b])"
    using h srt by (simp add: sorted_by_total_cost_def list_all_iff sort_key_id_if_sorted)
  have "plan_loop ex_blocked_start ex_detours 0 [ex_plan_goal_node] =
      plan_loop ex_blocked_start ex_detours (0 + 1) (ds @ [b])"
    using ex_goal_not_matched e s
    by (simp add: plan_loop.simps [of ex_blocked_start ex_detours 0 "[ex_plan_goal_node]"]
        plan_iteration_def)
  moreover have "plan_loop ex_blocked_start ex_detours (0 + 1) (ds @ [b]) = Inr None"
  proof (rule plan_loop_drain [OF _ srt h])
    show "\<forall>d\<in>set ds. \<not> matches ex_blocked_start (worldstate d) \<and>
        (\<exists>d'. expand ex_blocked_start ex_detours d = (d', Inr []))"
      using d ex_dead_end by blast
    show "500 \<le> 0 + 1 + length ds"
      using n by simp
  qed
  ultimately show ?thesis by simp
qed

lemma ex_detours_plan_exists: "plan_exists ex_blocked_start ex_detours ex_plan_goal_node"
proof -
  from ex_detours_expand obtain g' ds b where
    e: "expand ex_blocked_start ex_detours ex_plan_goal_node = (g', Inr (ds @ [b]))"
    and b: "worldstate b = []"
    by blast
  have "plan_exists ex_blocked_start ex_detours b"
    by (rule plan_here) (simp add: b matches_def)
  then show ?thesis
    by (rule plan_below [OF ex_goal_not_matched e, rotated]) simp
qed

lemma ex_breach_plan:
  "plan () [ex_Breach] ex_blocked_start ex_door_open_goal = Inr (Some ex_breach_node)"
proof -
  have c: "checked_actions_of () [ex_Breach] = [ex_Breach]"
    by (simp add: checked_actions_of_def ex_Breach_def simple_action_def)
  have g: "worldstate ex_plan_goal_node = [(''door'', IntV 1)]"
    "parent_nodes_path_list ex_plan_goal_node = []"
    by (simp_all add: ex_plan_goal_node_def)
  have f: "filter_matching_actions ex_blocked_start [(''door'', IntV 1)] [ex_Breach] = [ex_Breach]"
    by (simp add: filter_matching_actions_def ex_blocked_unsatisfied)
  have n: "set_heuristic_distance (make_child ex_blocked_start ex_plan_goal_node ex_Breach) 0 =
      ex_breach_node"
    by (simp add: set_heuristic_distance_def ex_breach_node_def)
      (simp add: ex_plan_goal_node_def)
  have e: "expand ex_blocked_start [ex_Breach] ex_plan_goal_node =
      (append_prev_node ex_plan_goal_node ex_breach_node, Inr [ex_breach_node])"
    by (simp add: expand_def g f get_child_nodes_def ex_breach_child n)
      (simp add: ex_plan_goal_node_def)
  have s: "sorted_by_total_cost [ex_breach_node] = Inr [ex_breach_node]"
    by (simp add: sorted_by_total_cost_def ex_breach_node_def)
  have m: "matches ex_blocked_start (worldstate ex_breach_node)"
    by (simp add: matches_def ex_breach_node_def)
  have 2: "plan_loop ex_blocked_start [ex_Breach] (Suc 0) [ex_breach_node] =
      Inr (Some ex_breach_node)"
    by (subst plan_loop.simps) (simp add: plan_iteration_def m)
  have 1: "plan_loop ex_blocked_start [ex_Breach] 0 [ex_plan_goal_node] =
      Inr (Some ex_breach_node)"
    by (subst plan_loop.simps) (simp add: plan_iteration_def ex_goal_not_matched e s 2)
  show ?thesis
    by (simp add: plan_prepared c ex_blocked_prepared 1)
qed

text \<open>
  Claim C1, as stated, at a catalog of 601 actions that each open the door in one step:
  600 of them need a key that no action provides, \<open>ex_Breach\<close> needs nothing but costs
  more. Every chain of effects has one action, and \<open>ex_Breach\<close> alone is a plan, which
  \<^verbatim>\<open>plan\<close> finds when the catalog holds nothing else. With the whole catalog the cheaper
  dead ends are removed from the open collection first, the loop limit is reached after
  500 of the 602 nodes, and \<^verbatim>\<open>plan\<close> returns \<^verbatim>\<open>None\<close>.
\<close>

theorem short_chains_exceed_limit_counterexample:
  "plan () ex_detours ex_blocked_start ex_door_open_goal = Inr None \<and>
   plan_exists ex_blocked_start (checked_actions_of () ex_detours)
     (prepared_goal_node ex_blocked_start ex_door_open_goal) \<and>
   ex_Breach \<in> set ex_detours \<and>
   plan () [ex_Breach] ex_blocked_start ex_door_open_goal = Inr (Some ex_breach_node) \<and>
   parent_node ex_breach_node = Inr ex_plan_goal_node \<and> is_goal ex_plan_goal_node"
proof -
  have "plan () ex_detours ex_blocked_start ex_door_open_goal = Inr None"
    by (simp add: plan_prepared ex_detours_checked ex_blocked_prepared ex_detours_no_plan)
  moreover have "plan_exists ex_blocked_start (checked_actions_of () ex_detours)
     (prepared_goal_node ex_blocked_start ex_door_open_goal)"
    by (simp add: ex_detours_checked ex_blocked_prepared ex_detours_plan_exists)
  moreover have "ex_Breach \<in> set ex_detours"
    by (simp add: ex_detours_def)
  moreover have "parent_node ex_breach_node = Inr ex_plan_goal_node" "is_goal ex_plan_goal_node"
    by (simp_all add: parent_node_def ex_breach_node_def is_goal_def ex_plan_goal_node_def)
  ultimately show ?thesis
    using ex_breach_plan by simp
qed

end
